theory Spec2Isabelle
  imports Main "HOL-Library.Multiset"
begin

section \<open>Data model (shared/schema.ts)\<close>

text \<open>
  The rows of the tables of \<^verbatim>\<open>shared/schema.ts\<close>. Identifiers are strings, SQL
  timestamps and JavaScript dates are the integer number of milliseconds since the epoch
  (what \<^verbatim>\<open>Date.getTime()\<close> returns), nullable columns are options. A field whose
  name is used by several tables, or by a constant of HOL, carries the initial of its
  table as a suffix.
\<close>

record comment =
  id_c :: string
  fileId :: string
  parentId :: "string option"
  name :: string
  email :: "string option"
  content :: string
  tag :: string
  positionX :: "int option"
  positionY :: "int option"
  timestamp :: "int option"
  page :: "int option"
  createdAt :: int
  updatedAt :: int

record user =
  id_u :: string
  username :: string
  password :: string

record project =
  id_p :: string
  publicId_p :: string
  title :: string
  userId_p :: string
  createdAt_p :: int
  updatedAt_p :: int

record fileRow =
  id_f :: string
  projectId_f :: string
  name_f :: string
  originalName :: string
  mimeType :: string
  size_f :: string
  objectPath :: string
  publicId_f :: "string option"
  uploadedAt :: int

record projectView =
  id_v :: string
  userId_v :: string
  projectId_v :: string
  lastViewedAt :: int

text \<open>The database: one list of rows per table, in the order the rows were inserted.\<close>

record db =
  users :: "user list"
  projects :: "project list"
  files :: "fileRow list"
  comments :: "comment list"
  projectViews :: "projectView list"

section \<open>Storage queries (server/storage.ts)\<close>

text \<open>
  \<^verbatim>\<open>select().from(t).where(p)\<close> keeps the rows satisfying \<open>p\<close>;
  \<^verbatim>\<open>orderBy(desc(k))\<close> sorts them by descending key. The database leaves the order
  of rows with equal keys open; here they keep the order of the table.
\<close>

definition orderByDesc :: "('a \<Rightarrow> int) \<Rightarrow> 'a list \<Rightarrow> 'a list" where
  "orderByDesc k rows = sort_key (\<lambda>r. - k r) rows"


definition getFilesByProjectId :: "db \<Rightarrow> string \<Rightarrow> fileRow list" where
  "getFilesByProjectId d projectId =
     orderByDesc uploadedAt (filter (\<lambda>f. projectId_f f = projectId) (files d))"

definition getCommentsByFileId :: "db \<Rightarrow> string \<Rightarrow> comment list" where
  "getCommentsByFileId d fid =
     orderByDesc createdAt (filter (\<lambda>c. fileId c = fid) (comments d))"

text \<open>\<^verbatim>\<open>const [view] = await db.select()...; return view || undefined\<close>: the first
  matching row, if any.\<close>

definition getProjectView :: "db \<Rightarrow> string \<Rightarrow> string \<Rightarrow> projectView option" where
  "getProjectView d userId projectId =
     (case filter (\<lambda>v. userId_v v = userId \<and> projectId_v v = projectId) (projectViews d) of
        [] \<Rightarrow> None
      | view # _ \<Rightarrow> Some view)"

subsection \<open>getProjectsWithCommentStats\<close>

text \<open>\<^verbatim>\<open>interface ProjectWithCommentStats extends Project\<close>.\<close>

record projectWithCommentStats = project +
  files_s :: "fileRow list"
  fileCount :: nat
  totalComments :: nat
  unresolvedComments :: nat
  lastCommentTime :: "int option"
  hasUnreadComments :: bool

text \<open>\<^verbatim>\<open>flatComments.length > 0 ? new Date(Math.max(...times)) : null\<close>.\<close>

fun lastCommentTimeOf :: "comment list \<Rightarrow> int option" where
  "lastCommentTimeOf [] = None"
| "lastCommentTimeOf (c # cs) = Some (fold max (map createdAt cs) (createdAt c))"

definition projectStats :: "db \<Rightarrow> string \<Rightarrow> project \<Rightarrow> projectWithCommentStats" where
  "projectStats d userId p =
     (let projectFiles = getFilesByProjectId d (id_p p);
          allComments = map (\<lambda>f. getCommentsByFileId d (id_f f)) projectFiles;
          flatComments = concat allComments;
          totalComments = length flatComments;
          unresolvedComments = length (filter
            (\<lambda>c. tag c = ''To Do'' \<or> tag c = ''In Progress'') flatComments);
          lastCommentTime = lastCommentTimeOf flatComments;
          projectView = getProjectView d userId (id_p p);
          lastViewedAt = (case projectView of None \<Rightarrow> 0 | Some v \<Rightarrow> lastViewedAt v);
          hasUnreadComments = list_ex (\<lambda>c. createdAt c > lastViewedAt) flatComments
      in project.extend p
           \<lparr> files_s = projectFiles,
             fileCount = length projectFiles,
             totalComments = totalComments,
             unresolvedComments = unresolvedComments,
             lastCommentTime = lastCommentTime,
             hasUnreadComments = hasUnreadComments \<rparr>)"


subsection \<open>updateProjectView\<close>

text \<open>
  \<^verbatim>\<open>updateProjectView\<close> awaits \<^verbatim>\<open>getProjectView\<close> and then issues one statement:
  with a row found, an update of every row of the pair
  (\<^verbatim>\<open>update ... where userId = .. and projectId = ..\<close>), with none, an insert. The
  table has no unique constraint on the pair and the two statements are in no transaction,
  so statements of other requests can run between them. \<open>writeProjectView\<close> is the
  second statement, for the value \<open>existingView\<close> that the read has given. The time
  \<^verbatim>\<open>new Date()\<close> and the identifier the database generates for a new row
  (\<^verbatim>\<open>gen_random_uuid()\<close>) are parameters. The result is the new database and the
  row \<^verbatim>\<open>returning()\<close> gives first (\<open>None\<close> for \<^verbatim>\<open>undefined\<close>).
\<close>

definition writeProjectView ::
  "db \<Rightarrow> string \<Rightarrow> string \<Rightarrow> projectView option \<Rightarrow> int \<Rightarrow> string \<Rightarrow> db \<times> projectView option" where
  "writeProjectView d userId projectId existingView now newId =
     (case existingView of
        Some _ \<Rightarrow>
          (d\<lparr>projectViews :=
               map (\<lambda>v. if userId_v v = userId \<and> projectId_v v = projectId
                        then v\<lparr>lastViewedAt := now\<rparr> else v) (projectViews d)\<rparr>,
           map_option (\<lambda>v. v\<lparr>lastViewedAt := now\<rparr>) (getProjectView d userId projectId))
      | None \<Rightarrow>
          (let newView = \<lparr>id_v = newId, userId_v = userId, projectId_v = projectId,
                           lastViewedAt = now\<rparr>
           in (d\<lparr>projectViews := projectViews d @ [newView]\<rparr>, Some newView)))"

text \<open>A call during which no other statement runs.\<close>

definition updateProjectView ::
  "db \<Rightarrow> string \<Rightarrow> string \<Rightarrow> int \<Rightarrow> string \<Rightarrow> db \<times> projectView option" where
  "updateProjectView d userId projectId now newId =
     writeProjectView d userId projectId (getProjectView d userId projectId) now newId"

subsection \<open>The other writers\<close>

text \<open>\<^verbatim>\<open>InsertComment\<close>: the columns \<^verbatim>\<open>insertCommentSchema\<close> picks. An optional
  column that is absent or null is \<open>None\<close>.\<close>

record insertComment =
  fileId_i :: string
  parentId_i :: "string option"
  name_i :: string
  email_i :: "string option"
  content_i :: string
  tag_i :: "string option"
  positionX_i :: "int option"
  positionY_i :: "int option"
  timestamp_i :: "int option"
  page_i :: "int option"

text \<open>
  The database refuses a text value that holds the character with code 0, and the insert
  throws. \<open>storable\<close> are the other strings.
\<close>

definition storable :: "string \<Rightarrow> bool" where
  "storable s \<longleftrightarrow> CHR 0x00 \<notin> set s"

definition storableOpt :: "string option \<Rightarrow> bool" where
  "storableOpt v = (case v of None \<Rightarrow> True | Some s \<Rightarrow> storable s)"

text \<open>\<^verbatim>\<open>createComment\<close>: the insert fills the defaults of the table: the generated
  identifier, the tag \<^verbatim>\<open>"To Do"\<close>, and the current time for both timestamps. \<open>None\<close>:
  the insert throws and the table is as before.\<close>

definition createComment :: "db \<Rightarrow> insertComment \<Rightarrow> string \<Rightarrow> int \<Rightarrow> (db \<times> comment) option" where
  "createComment d ic newId now =
     (if storable (fileId_i ic) \<and> storableOpt (parentId_i ic) \<and> storable (name_i ic) \<and>
         storableOpt (email_i ic) \<and> storable (content_i ic) \<and> storableOpt (tag_i ic)
      then
        (let c = \<lparr>id_c = newId, fileId = fileId_i ic, parentId = parentId_i ic,
                   name = name_i ic, email = email_i ic, content = content_i ic,
                   tag = (case tag_i ic of None \<Rightarrow> ''To Do'' | Some t \<Rightarrow> t),
                   positionX = positionX_i ic, positionY = positionY_i ic,
                   timestamp = timestamp_i ic, page = page_i ic,
                   createdAt = now, updatedAt = now\<rparr>
         in Some (d\<lparr>comments := comments d @ [c]\<rparr>, c))
      else None)"

definition deleteComment :: "db \<Rightarrow> string \<Rightarrow> db" where
  "deleteComment d cid = d\<lparr>comments := filter (\<lambda>c. id_c c \<noteq> cid) (comments d)\<rparr>"

definition createUser :: "db \<Rightarrow> string \<Rightarrow> string \<Rightarrow> string \<Rightarrow> db" where
  "createUser d uname pw newId =
     d\<lparr>users := users d @ [\<lparr>id_u = newId, username = uname, password = pw\<rparr>]\<rparr>"

definition createProject :: "db \<Rightarrow> string \<Rightarrow> string \<Rightarrow> string \<Rightarrow> string \<Rightarrow> int \<Rightarrow> db" where
  "createProject d ttl userId newId newPublicId now =
     d\<lparr>projects := projects d @
        [\<lparr>id_p = newId, publicId_p = newPublicId, title = ttl, userId_p = userId,
          createdAt_p = now, updatedAt_p = now\<rparr>]\<rparr>"

text \<open>\<^verbatim>\<open>updateProject(id, updates: Partial<Project>)\<close> sets the given columns and
  \<^verbatim>\<open>updatedAt\<close> on the rows with that id; \<open>updates\<close> is the effect of the given
  columns on a row. With no such row the source throws and nothing changes.\<close>

definition updateProject :: "db \<Rightarrow> string \<Rightarrow> (project \<Rightarrow> project) \<Rightarrow> int \<Rightarrow> db" where
  "updateProject d pid updates now =
     d\<lparr>projects := map (\<lambda>p. if id_p p = pid then (updates p)\<lparr>updatedAt_p := now\<rparr> else p)
                         (projects d)\<rparr>"

definition deleteProject :: "db \<Rightarrow> string \<Rightarrow> db" where
  "deleteProject d pid = d\<lparr>projects := filter (\<lambda>p. id_p p \<noteq> pid) (projects d)\<rparr>"

text \<open>\<^verbatim>\<open>createFile\<close>: \<open>f\<close> is the row as inserted, the defaults of the table filled in.\<close>

definition createFile :: "db \<Rightarrow> fileRow \<Rightarrow> db" where
  "createFile d f = d\<lparr>files := files d @ [f]\<rparr>"

definition deleteFile :: "db \<Rightarrow> string \<Rightarrow> db" where
  "deleteFile d fid = d\<lparr>files := filter (\<lambda>f. id_f f \<noteq> fid) (files d)\<rparr>"

text \<open>The other writers of \<^verbatim>\<open>IStorage\<close>, each one statement, as operations on the
  database.\<close>

datatype operation =
    CreateUser string string string
  | CreateProject string string string string int
  | UpdateProject string "project \<Rightarrow> project" int
  | DeleteProject string
  | CreateFile fileRow
  | DeleteFile string
  | CreateComment insertComment string int
  | DeleteComment string

fun perform :: "operation \<Rightarrow> db \<Rightarrow> db" where
  "perform (CreateUser uname pw newId) d = createUser d uname pw newId"
| "perform (CreateProject ttl userId newId newPublicId now) d =
     createProject d ttl userId newId newPublicId now"
| "perform (UpdateProject pid updates now) d = updateProject d pid updates now"
| "perform (DeleteProject pid) d = deleteProject d pid"
| "perform (CreateFile f) d = createFile d f"
| "perform (DeleteFile fid) d = deleteFile d fid"
| "perform (CreateComment ic newId now) d =
     (case createComment d ic newId now of None \<Rightarrow> d | Some (d', c) \<Rightarrow> d')"
| "perform (DeleteComment cid) d = deleteComment d cid"

subsection \<open>Requests in flight\<close>

text \<open>
  The server handles requests concurrently: a call of \<^verbatim>\<open>updateProjectView\<close> is
  suspended at its \<^verbatim>\<open>await\<close>, and statements of other requests run in between. A call
  is \<open>Reading\<close> before its read, \<open>Writing existingView\<close> between its read and its
  write, and \<open>Returned\<close> after. The calls in flight are numbered; \<open>reqs ! i\<close> are the
  arguments (user, project) of call \<open>i\<close>. The event \<open>Step i now newId\<close> lets call \<open>i\<close>
  run its next statement, \<open>now\<close> and \<open>newId\<close> being the time and the generated
  identifier should the statement need them; \<open>Perform\<close> is a statement of another kind
  of request. \<open>run\<close> executes a schedule, all calls being \<open>Reading\<close> at first.
\<close>

datatype viewCall = Reading | Writing "projectView option" | Returned "projectView option"

datatype event = Step nat int string | Perform operation

fun stepCall :: "string \<times> string \<Rightarrow> int \<Rightarrow> string \<Rightarrow> db \<times> viewCall \<Rightarrow> db \<times> viewCall" where
  "stepCall (userId, projectId) now newId (d, Reading) =
     (d, Writing (getProjectView d userId projectId))"
| "stepCall (userId, projectId) now newId (d, Writing existingView) =
     (let (d', view) = writeProjectView d userId projectId existingView now newId
      in (d', Returned view))"
| "stepCall (userId, projectId) now newId (d, Returned view) = (d, Returned view)"

fun step :: "(string \<times> string) list \<Rightarrow> event \<Rightarrow> db \<times> viewCall list \<Rightarrow> db \<times> viewCall list" where
  "step reqs (Step i now newId) (d, calls) =
     (if i < length reqs \<and> i < length calls
      then (let (d', call) = stepCall (reqs ! i) now newId (d, calls ! i)
            in (d', calls[i := call]))
      else (d, calls))"
| "step reqs (Perform operation) (d, calls) = (perform operation d, calls)"

definition run :: "(string \<times> string) list \<Rightarrow> event list \<Rightarrow> db \<Rightarrow> db \<times> viewCall list" where
  "run reqs evs d = fold (step reqs) evs (d, replicate (length reqs) Reading)"




text \<open>The rows of the ledger for one (user, project) pair.\<close>

definition viewsOf :: "db \<Rightarrow> string \<Rightarrow> string \<Rightarrow> projectView list" where
  "viewsOf d userId projectId =
     filter (\<lambda>v. userId_v v = userId \<and> projectId_v v = projectId) (projectViews d)"

text \<open>At most one row per (user, project) pair.\<close>

definition onePerPair :: "db \<Rightarrow> bool" where
  "onePerPair d = distinct (map (\<lambda>v. (userId_v v, projectId_v v)) (projectViews d))"


definition emptyDb :: db where
  "emptyDb = \<lparr>users = [], projects = [], files = [], comments = [], projectViews = []\<rparr>"

section \<open>Comment submission (server/routes.ts, POST /api/comments)\<close>

text \<open>
  The request body is a JSON object; each field the schema picks is a JSON value, or is
  absent (\<open>JUndefined\<close>). \<open>JNum\<close> is a number that is an integer, \<open>JFraction\<close> a
  number that is none, \<open>JStructure\<close> an array or an object.
\<close>

datatype json = JUndefined | JNull | JBool bool | JNum int | JFraction | JStr string | JStructure

record commentBody =
  fileId_b :: json
  parentId_b :: json
  name_b :: json
  email_b :: json
  content_b :: json
  tag_b :: json
  positionX_b :: json
  positionY_b :: json
  timestamp_b :: json
  page_b :: json

text \<open>
  \<^verbatim>\<open>insertCommentSchema = createInsertSchema(comments).pick({...})\<close>. The library
  drizzle-zod derives the schema from the table: a \<^verbatim>\<open>notNull\<close> text column without
  default is a required string, a \<^verbatim>\<open>notNull\<close> column with a default is an optional
  string, a nullable text column is an optional, nullable string and a nullable integer
  column an optional, nullable integer within the range of the column type (32 bits,
  signed). A string validator accepts every string; no minimum length is asked for. An
  issue names the path of the field it is about.
\<close>

datatype issue = InvalidType string | TooSmall string | TooBig string

definition requiredString :: "string \<Rightarrow> json \<Rightarrow> issue list" where
  "requiredString path v = (case v of JStr _ \<Rightarrow> [] | _ \<Rightarrow> [InvalidType path])"

definition optionalString :: "string \<Rightarrow> json \<Rightarrow> issue list" where
  "optionalString path v = (case v of JStr _ \<Rightarrow> [] | JUndefined \<Rightarrow> [] | _ \<Rightarrow> [InvalidType path])"

definition nullableString :: "string \<Rightarrow> json \<Rightarrow> issue list" where
  "nullableString path v =
     (case v of JStr _ \<Rightarrow> [] | JUndefined \<Rightarrow> [] | JNull \<Rightarrow> [] | _ \<Rightarrow> [InvalidType path])"

definition nullableNumber :: "string \<Rightarrow> json \<Rightarrow> issue list" where
  "nullableNumber path v =
     (case v of
        JNum n \<Rightarrow>
          (if n < - 2147483648 then [TooSmall path]
           else if 2147483647 < n then [TooBig path] else [])
      | JUndefined \<Rightarrow> []
      | JNull \<Rightarrow> []
      | _ \<Rightarrow> [InvalidType path])"

definition strOf :: "json \<Rightarrow> string" where
  "strOf v = (case v of JStr s \<Rightarrow> s | _ \<Rightarrow> [])"

definition strOptOf :: "json \<Rightarrow> string option" where
  "strOptOf v = (case v of JStr s \<Rightarrow> Some s | _ \<Rightarrow> None)"

definition numOptOf :: "json \<Rightarrow> int option" where
  "numOptOf v = (case v of JNum n \<Rightarrow> Some n | _ \<Rightarrow> None)"

definition safeParse :: "commentBody \<Rightarrow> issue list + insertComment" where
  "safeParse b =
     (let issues =
            requiredString ''fileId'' (fileId_b b) @
            nullableString ''parentId'' (parentId_b b) @
            requiredString ''name'' (name_b b) @
            nullableString ''email'' (email_b b) @
            requiredString ''content'' (content_b b) @
            optionalString ''tag'' (tag_b b) @
            nullableNumber ''positionX'' (positionX_b b) @
            nullableNumber ''positionY'' (positionY_b b) @
            nullableNumber ''timestamp'' (timestamp_b b) @
            nullableNumber ''page'' (page_b b)
      in if issues = [] then
           Inr \<lparr>fileId_i = strOf (fileId_b b), parentId_i = strOptOf (parentId_b b),
                name_i = strOf (name_b b), email_i = strOptOf (email_b b),
                content_i = strOf (content_b b), tag_i = strOptOf (tag_b b),
                positionX_i = numOptOf (positionX_b b), positionY_i = numOptOf (positionY_b b),
                timestamp_i = numOptOf (timestamp_b b), page_i = numOptOf (page_b b)\<rparr>
         else Inl issues)"

text \<open>The handler of \<^verbatim>\<open>POST /api/comments\<close>: status 400 with the validation error, or
  the insert and status 201 with the new row, or status 500 when the insert throws.\<close>

datatype response = BadRequest "issue list" | Created comment | ServerError

definition postComment :: "db \<Rightarrow> commentBody \<Rightarrow> string \<Rightarrow> int \<Rightarrow> db \<times> response" where
  "postComment d body newId now =
     (case safeParse body of
        Inl issues \<Rightarrow> (d, BadRequest issues)
      | Inr data \<Rightarrow>
          (case createComment d data newId now of
             Some (d', c) \<Rightarrow> (d', Created c)
           | None \<Rightarrow> (d, ServerError)))"

section \<open>Pins (client/src/components)\<close>

text \<open>
  \<^verbatim>\<open>!comment.parentId\<close> holds when the parent id is null or the empty string.
  \<open>parentKey\<close> is the parent id when it is neither.
\<close>

definition parentKey :: "comment \<Rightarrow> string option" where
  "parentKey c = (case parentId c of None \<Rightarrow> None | Some s \<Rightarrow> if s = [] then None else Some s)"

text \<open>\<^verbatim>\<open>xs.sort((a, b) => new Date(a.createdAt).getTime() - new Date(b.createdAt).getTime())\<close>:
  the sort of an array is stable.\<close>

definition sortByCreatedAt :: "comment list \<Rightarrow> comment list" where
  "sortByCreatedAt cs = sort_key createdAt cs"

text \<open>\<^verbatim>\<open>ImageWithComments\<close>: the pin of the comment at index \<open>idx\<close> has number
  \<open>idx + 1\<close>.\<close>

definition rootComments :: "comment list \<Rightarrow> comment list" where
  "rootComments cs =
     sortByCreatedAt (filter
       (\<lambda>c. parentKey c = None \<and> positionX c \<noteq> None \<and> positionY c \<noteq> None) cs)"

definition imagePins :: "comment list \<Rightarrow> (int \<times> comment) list" where
  "imagePins cs = map (\<lambda>(idx, c). (int idx + 1, c)) (enumerate 0 (rootComments cs))"

text \<open>\<^verbatim>\<open>PDFWithComments\<close>: the pins of the displayed page are numbered by their
  index among the root comments of all pages.\<close>

definition rootCommentsForPage :: "comment list \<Rightarrow> int \<Rightarrow> comment list" where
  "rootCommentsForPage cs currentPage =
     sortByCreatedAt (filter
       (\<lambda>c. parentKey c = None \<and> page c = Some currentPage \<and>
            positionX c \<noteq> None \<and> positionY c \<noteq> None) cs)"

definition allRootComments :: "comment list \<Rightarrow> comment list" where
  "allRootComments cs =
     sortByCreatedAt (filter (\<lambda>c. parentKey c = None \<and> page c \<noteq> None) cs)"

fun findIndex :: "('a \<Rightarrow> bool) \<Rightarrow> 'a list \<Rightarrow> int" where
  "findIndex P [] = - 1"
| "findIndex P (x # xs) =
     (if P x then 0 else (let i = findIndex P xs in if i < 0 then - 1 else i + 1))"

definition pdfPins :: "comment list \<Rightarrow> int \<Rightarrow> (int \<times> comment) list" where
  "pdfPins cs currentPage =
     map (\<lambda>c. (findIndex (\<lambda>d. id_c d = id_c c) (allRootComments cs) + 1, c))
         (rootCommentsForPage cs currentPage)"

text \<open>
  \<^verbatim>\<open>VideoWithComments\<close> draws nothing on the video. Below it, it lists the root comments
  with a timestamp in ascending order of \<^verbatim>\<open>timestamp || 0\<close>, each under its time as
  \<^verbatim>\<open>formatTime\<close> writes it (minutes, a colon, and the seconds padded to two characters)
  and without a number.
\<close>

definition timestampOr0 :: "comment \<Rightarrow> int" where
  "timestampOr0 c = (case timestamp c of None \<Rightarrow> 0 | Some t \<Rightarrow> t)"

definition timestampComments :: "comment list \<Rightarrow> comment list" where
  "timestampComments cs =
     sort_key timestampOr0 (filter (\<lambda>c. timestamp c \<noteq> None \<and> parentKey c = None) cs)"

text \<open>The decimal digits of a number, as \<^verbatim>\<open>toString\<close> writes an integer.\<close>

fun decimal :: "nat \<Rightarrow> string" where
  "decimal n =
     (if n < 10 then [''0123456789'' ! n] else decimal (n div 10) @ [''0123456789'' ! (n mod 10)])"

definition toString :: "int \<Rightarrow> string" where
  "toString n = (if n < 0 then CHR ''-'' # decimal (nat (- n)) else decimal (nat n))"

text \<open>\<^verbatim>\<open>s.padStart(2, '0')\<close>.\<close>

definition padStart2 :: "string \<Rightarrow> string" where
  "padStart2 s = replicate (2 - length s) CHR ''0'' @ s"

text \<open>\<^verbatim>\<open>Math.floor(seconds / 60)\<close> rounds down; \<^verbatim>\<open>seconds % 60\<close> has the sign of
  \<^verbatim>\<open>seconds\<close>.\<close>

definition formatTime :: "int \<Rightarrow> string" where
  "formatTime seconds =
     (let mins = seconds div 60;
          secs = (if seconds < 0 then - ((- seconds) mod 60) else seconds mod 60)
      in toString mins @ '':'' @ padStart2 (toString secs))"

definition videoTimeline :: "comment list \<Rightarrow> (string \<times> comment) list" where
  "videoTimeline cs = map (\<lambda>c. (formatTime (timestampOr0 c), c)) (timestampComments cs)"

section \<open>buildCommentTree (client/src/lib/commentUtils.ts)\<close>

text \<open>
  The function builds its result by mutating objects that refer to each other, so the
  model has an explicit heap: a list of objects, the address of an object being its
  index. An object is a plain \<^verbatim>\<open>Comment\<close>, or a \<^verbatim>\<open>CommentWithReplies\<close>: the
  fields of a comment and the array \<^verbatim>\<open>replies\<close> of references to other objects.
  An array of objects is the list of their addresses. A property read on something that
  is no object, or \<^verbatim>\<open>replies\<close> read on an object without it, is a
  \<open>TypeError\<close>; exhausting the call stack is a \<open>RangeError\<close>.
\<close>

type_synonym addr = nat

datatype obj = Comment comment | CommentWithReplies comment "addr list"

type_synonym heap = "obj list"

datatype error = TypeError | RangeError

fun fieldsOf :: "obj \<Rightarrow> comment" where
  "fieldsOf (Comment c) = c"
| "fieldsOf (CommentWithReplies c rs) = c"

definition lookup :: "heap \<Rightarrow> addr \<Rightarrow> obj option" where
  "lookup h a = (if a < length h then Some (h ! a) else None)"

text \<open>First loop: \<^verbatim>\<open>map.set(comment.id, {...comment, replies: []})\<close> allocates a new
  object for every comment and stores its reference under the comment's id; a later
  comment with the same id replaces the entry.\<close>

fun initNodes ::
  "addr list \<Rightarrow> heap \<times> (string \<rightharpoonup> addr) \<Rightarrow> error + heap \<times> (string \<rightharpoonup> addr)" where
  "initNodes [] (h, m) = Inr (h, m)"
| "initNodes (a # as) (h, m) =
     (case lookup h a of
        None \<Rightarrow> Inl TypeError
      | Some ob \<Rightarrow>
          (let comment = fieldsOf ob;
               commentWithReplies = length h;
               h' = h @ [CommentWithReplies comment []]
           in initNodes as (h', m(id_c comment \<mapsto> commentWithReplies))))"

text \<open>\<^verbatim>\<open>parent.replies.push(commentWithReplies)\<close>.\<close>

definition push :: "heap \<Rightarrow> addr \<Rightarrow> addr \<Rightarrow> error + heap" where
  "push h parent x =
     (case lookup h parent of
        Some (CommentWithReplies c rs) \<Rightarrow> Inr (h[parent := CommentWithReplies c (rs @ [x])])
      | _ \<Rightarrow> Inl TypeError)"

text \<open>Second loop. \<^verbatim>\<open>map.get(comment.id)!\<close> is the entry the first loop has set. A
  comment with a parent id that is not a key of the map is pushed nowhere.\<close>

fun linkNodes ::
  "addr list \<Rightarrow> (string \<rightharpoonup> addr) \<Rightarrow> heap \<times> addr list \<Rightarrow> error + heap \<times> addr list" where
  "linkNodes [] m (h, roots) = Inr (h, roots)"
| "linkNodes (a # as) m (h, roots) =
     (case lookup h a of
        None \<Rightarrow> Inl TypeError
      | Some ob \<Rightarrow>
          (let comment = fieldsOf ob in
           case m (id_c comment) of
             None \<Rightarrow> Inl TypeError
           | Some commentWithReplies \<Rightarrow>
               (case parentKey comment of
                  Some pid \<Rightarrow>
                    (case m pid of
                       Some parent \<Rightarrow>
                         (case push h parent commentWithReplies of
                            Inl e \<Rightarrow> Inl e
                          | Inr h' \<Rightarrow> linkNodes as m (h', roots))
                     | None \<Rightarrow> linkNodes as m (h, roots))
                | None \<Rightarrow> linkNodes as m (h, roots @ [commentWithReplies]))))"

text \<open>The comparator reads \<^verbatim>\<open>createdAt\<close> of the two objects; the sort is stable.\<close>

definition createdAtOf :: "heap \<Rightarrow> addr \<Rightarrow> int" where
  "createdAtOf h a = createdAt (fieldsOf (h ! a))"

definition sortRefsByCreatedAt :: "heap \<Rightarrow> addr list \<Rightarrow> error + addr list" where
  "sortRefsByCreatedAt h rs =
     (if list_all (\<lambda>a. a < length h) rs then Inr (sort_key (createdAtOf h) rs)
      else Inl TypeError)"

text \<open>
  \<^verbatim>\<open>sortReplies\<close> sorts the replies of an object in place and calls itself on each of
  them. The first argument is the depth of call stack that is left: every nested call
  uses one level, and with none left the call raises \<open>RangeError\<close>.
\<close>

fun sortReplies :: "nat \<Rightarrow> addr \<Rightarrow> heap \<Rightarrow> error + heap"
  and forEachSortReplies :: "nat \<Rightarrow> addr list \<Rightarrow> heap \<Rightarrow> error + heap" where
  "sortReplies 0 a h = Inl RangeError"
| "sortReplies (Suc n) a h =
     (case lookup h a of
        Some (CommentWithReplies c rs) \<Rightarrow>
          (case sortRefsByCreatedAt h rs of
             Inl e \<Rightarrow> Inl e
           | Inr rs' \<Rightarrow> forEachSortReplies n rs' (h[a := CommentWithReplies c rs']))
      | _ \<Rightarrow> Inl TypeError)"
| "forEachSortReplies n [] h = Inr h"
| "forEachSortReplies n (r # rs) h =
     (case sortReplies n r h of
        Inl e \<Rightarrow> Inl e
      | Inr h' \<Rightarrow> forEachSortReplies n rs h')"

text \<open>\<^verbatim>\<open>buildCommentTree(comments)\<close> on the heap \<open>h\<close>, with \<open>stack\<close> levels of call
  stack; \<open>commentRefs\<close> is the array \<^verbatim>\<open>comments\<close>. The result is the new heap and the
  array \<^verbatim>\<open>roots\<close>.\<close>

definition buildCommentTree :: "nat \<Rightarrow> heap \<Rightarrow> addr list \<Rightarrow> error + heap \<times> addr list" where
  "buildCommentTree stack h commentRefs =
     (case initNodes commentRefs (h, Map.empty) of
        Inl e \<Rightarrow> Inl e
      | Inr (h1, m) \<Rightarrow>
          (case linkNodes commentRefs m (h1, []) of
             Inl e \<Rightarrow> Inl e
           | Inr (h2, roots) \<Rightarrow>
               (case sortRefsByCreatedAt h2 roots of
                  Inl e \<Rightarrow> Inl e
                | Inr roots' \<Rightarrow>
                    (case forEachSortReplies stack roots' h2 of
                       Inl e \<Rightarrow> Inl e
                     | Inr h3 \<Rightarrow> Inr (h3, roots')))))"

subsection \<open>The forest a caller sees\<close>

text \<open>
  The value of a \<^verbatim>\<open>CommentWithReplies\<close> is the tree one reads by following
  \<^verbatim>\<open>replies\<close>: \<open>readTree n h a\<close> reads at most \<open>n\<close> levels below the object at \<open>a\<close>
  and is \<open>None\<close> when the structure is deeper (or cyclic), or when \<open>a\<close> is no such object.
\<close>

datatype commentTree = Node comment "commentTree list"

fun readTree :: "nat \<Rightarrow> heap \<Rightarrow> addr \<Rightarrow> commentTree option" where
  "readTree 0 h a = None"
| "readTree (Suc n) h a =
     (case lookup h a of
        Some (CommentWithReplies c rs) \<Rightarrow> map_option (Node c) (those (map (readTree n h) rs))
      | _ \<Rightarrow> None)"

definition readForest :: "nat \<Rightarrow> heap \<Rightarrow> addr list \<Rightarrow> commentTree list option" where
  "readForest n h roots = those (map (readTree n h) roots)"

text \<open>The call on an array of comment objects with the values \<open>cs\<close>, on a heap that
  holds nothing else, and the forest it returns.\<close>

definition commentForest :: "nat \<Rightarrow> comment list \<Rightarrow> error + commentTree list" where
  "commentForest stack cs =
     (case buildCommentTree stack (map Comment cs) [0..<length cs] of
        Inl e \<Rightarrow> Inl e
      | Inr (h, roots) \<Rightarrow>
          (case readForest stack h roots of
             None \<Rightarrow> Inl RangeError
           | Some forest \<Rightarrow> Inr forest))"

fun nodes :: "commentTree \<Rightarrow> comment list" where
  "nodes (Node c ts) = c # concat (map nodes ts)"

definition forestNodes :: "commentTree list \<Rightarrow> comment list" where
  "forestNodes ts = concat (map nodes ts)"

fun rootOf :: "commentTree \<Rightarrow> comment" where
  "rootOf (Node c ts) = c"

fun repliesSorted :: "commentTree \<Rightarrow> bool" where
  "repliesSorted (Node c ts) =
     (sorted (map (createdAt \<circ> rootOf) ts) \<and> list_all repliesSorted ts)"

subsection \<open>The forest as a function of the comments\<close>

text \<open>
  What the construction computes when the ids are pairwise distinct, written without a
  heap: the roots are the comments without parent key, the replies of a comment are the
  comments whose parent key is its id, both in ascending \<^verbatim>\<open>createdAt\<close> order.
\<close>

definition rootsOf :: "comment list \<Rightarrow> comment list" where
  "rootsOf cs = sort_key createdAt (filter (\<lambda>d. parentKey d = None) cs)"

definition kids :: "comment list \<Rightarrow> comment \<Rightarrow> comment list" where
  "kids cs c = sort_key createdAt (filter (\<lambda>d. parentKey d = Some (id_c c)) cs)"

fun specTree :: "nat \<Rightarrow> comment list \<Rightarrow> comment \<Rightarrow> commentTree option" where
  "specTree 0 cs c = None"
| "specTree (Suc n) cs c = map_option (Node c) (those (map (specTree n cs) (kids cs c)))"

definition specForest :: "nat \<Rightarrow> comment list \<Rightarrow> commentTree list option" where
  "specForest n cs = those (map (specTree n cs) (rootsOf cs))"

text \<open>The comments whose chain of parents ends, inside the input, in a comment without
  parent key.\<close>

inductive rooted :: "comment list \<Rightarrow> comment \<Rightarrow> bool" for cs where
  root: "c \<in> set cs \<Longrightarrow> parentKey c = None \<Longrightarrow> rooted cs c"
| reply: "rooted cs p \<Longrightarrow> c \<in> set cs \<Longrightarrow> parentKey c = Some (id_c p) \<Longrightarrow> rooted cs c"

text \<open>The reply relation of an input: the pairs (reply, parent).\<close>

definition replyRel :: "comment list \<Rightarrow> (comment \<times> comment) set" where
  "replyRel cs = {(k, p). k \<in> set cs \<and> p \<in> set cs \<and> parentKey k = Some (id_c p)}"

text \<open>
  \<open>tiedAlike ns cs cs'\<close>: comments of \<open>ns\<close> with the same parent key and the same
  creation time come in the same order in \<open>cs\<close> and in \<open>cs'\<close>. \<open>tiesKept cs t\<close>: in
  every replies list of the tree \<open>t\<close>, the comments created at the same time are in the
  order they have in the input \<open>cs\<close>. \<open>kidsAre cs t\<close>: every replies list of \<open>t\<close>
  holds the replies that \<open>kids\<close> gives for the input \<open>cs\<close>.
\<close>

definition tiedAlike :: "comment list \<Rightarrow> comment list \<Rightarrow> comment list \<Rightarrow> bool" where
  "tiedAlike ns cs cs' \<longleftrightarrow>
     (\<forall>c \<in> set ns.
        filter (\<lambda>d. d \<in> set ns \<and> parentKey d = parentKey c \<and> createdAt d = createdAt c) cs' =
        filter (\<lambda>d. d \<in> set ns \<and> parentKey d = parentKey c \<and> createdAt d = createdAt c) cs)"

fun tiesKept :: "comment list \<Rightarrow> commentTree \<Rightarrow> bool" where
  "tiesKept cs (Node c ts) =
     ((\<forall>d \<in> set cs.
         filter (\<lambda>e. createdAt e = createdAt d) (map rootOf ts) =
         filter (\<lambda>e. parentKey e = Some (id_c c) \<and> createdAt e = createdAt d) cs) \<and>
      list_all (tiesKept cs) ts)"

fun kidsAre :: "comment list \<Rightarrow> commentTree \<Rightarrow> bool" where
  "kidsAre cs (Node c ts) = (map rootOf ts = kids cs c \<and> list_all (kidsAre cs) ts)"

text \<open>\<open>replyPairs t\<close>: the pairs (reply, parent) of the tree \<open>t\<close>; \<open>forestPairs\<close>: those
  of a forest.\<close>

fun replyPairs :: "commentTree \<Rightarrow> (comment \<times> comment) set" where
  "replyPairs (Node c ts) = (\<lambda>t. (rootOf t, c)) ` set ts \<union> (\<Union>t \<in> set ts. replyPairs t)"

definition forestPairs :: "commentTree list \<Rightarrow> (comment \<times> comment) set" where
  "forestPairs f = (\<Union>t \<in> set f. replyPairs t)"

subsection \<open>The heap between the loops\<close>

text \<open>
  For an input with the values \<open>cs\<close> on a heap \<open>h0\<close>, the object made for the comment
  at index \<open>i\<close> lies at the address \<open>length h0 + i\<close>. \<open>childIdx cs k i\<close> are the
  indices below \<open>k\<close> of the comments whose parent key is the id of comment \<open>i\<close>, and
  \<open>linked h0 cs k\<close> is the heap after the second loop has handled the first \<open>k\<close>
  comments, \<open>linkedRoots\<close> the array \<^verbatim>\<open>roots\<close> at that point.
\<close>

definition childIdx :: "comment list \<Rightarrow> nat \<Rightarrow> nat \<Rightarrow> nat list" where
  "childIdx cs k i = filter (\<lambda>j. parentKey (cs ! j) = Some (id_c (cs ! i))) [0..<k]"

definition rootIdx :: "comment list \<Rightarrow> nat \<Rightarrow> nat list" where
  "rootIdx cs k = filter (\<lambda>j. parentKey (cs ! j) = None) [0..<k]"

definition linked :: "heap \<Rightarrow> comment list \<Rightarrow> nat \<Rightarrow> heap" where
  "linked h0 cs k =
     h0 @ map (\<lambda>i. CommentWithReplies (cs ! i) (map ((+) (length h0)) (childIdx cs k i)))
            [0..<length cs]"

definition linkedRoots :: "heap \<Rightarrow> comment list \<Rightarrow> nat \<Rightarrow> addr list" where
  "linkedRoots h0 cs k = map ((+) (length h0)) (rootIdx cs k)"

definition nodeMap :: "heap \<Rightarrow> comment list \<Rightarrow> (string \<rightharpoonup> addr)" where
  "nodeMap h0 cs = Map.empty(map id_c cs [\<mapsto>] [length h0..<length h0 + length cs])"

subsection \<open>The heap while the replies are sorted\<close>

text \<open>
  \<open>kidIdx cs i\<close> are the indices of the replies to comment \<open>i\<close> in ascending
  \<^verbatim>\<open>createdAt\<close> order. In a heap that is \<open>wellLinked\<close> the objects that were there
  before the call are as they were, and the object of every comment holds its replies,
  either in input order (as the second loop leaves them) or sorted (\<open>sortedAt\<close>).
\<close>

definition kidIdx :: "comment list \<Rightarrow> nat \<Rightarrow> nat list" where
  "kidIdx cs i = sort_key (\<lambda>j. createdAt (cs ! j)) (childIdx cs (length cs) i)"

definition sortedAt :: "heap \<Rightarrow> comment list \<Rightarrow> heap \<Rightarrow> nat \<Rightarrow> bool" where
  "sortedAt h0 cs h i \<longleftrightarrow>
     h ! (length h0 + i) = CommentWithReplies (cs ! i) (map ((+) (length h0)) (kidIdx cs i))"

definition wellLinked :: "heap \<Rightarrow> comment list \<Rightarrow> heap \<Rightarrow> bool" where
  "wellLinked h0 cs h \<longleftrightarrow>
     length h = length h0 + length cs \<and>
     (\<forall>a < length h0. h ! a = h0 ! a) \<and>
     (\<forall>i < length cs.
        h ! (length h0 + i) = linked h0 cs (length cs) ! (length h0 + i) \<or> sortedAt h0 cs h i)"

text \<open>\<open>sortedMore h0 cs S h h'\<close>: the heap \<open>h'\<close> is well linked, is sorted wherever
  \<open>h\<close> is, and is sorted at every comment of \<open>S\<close>.\<close>

definition sortedMore :: "heap \<Rightarrow> comment list \<Rightarrow> comment set \<Rightarrow> heap \<Rightarrow> heap \<Rightarrow> bool" where
  "sortedMore h0 cs S h h' \<longleftrightarrow>
     wellLinked h0 cs h' \<and>
     (\<forall>j < length cs. sortedAt h0 cs h j \<longrightarrow> sortedAt h0 cs h' j) \<and>
     (\<forall>j < length cs. cs ! j \<in> S \<longrightarrow> sortedAt h0 cs h' j)"

subsection \<open>What the call writes\<close>

text \<open>
  \<open>nodesClosed n0 h\<close>: the replies of every object at an address from \<open>n0\<close> on are
  addresses from \<open>n0\<close> on. \<open>sameBelow n0 h h'\<close>: the heap \<open>h'\<close> has the size of \<open>h\<close> and
  the same objects below \<open>n0\<close>.
\<close>

fun repliesOf :: "obj \<Rightarrow> addr list" where
  "repliesOf (Comment c) = []"
| "repliesOf (CommentWithReplies c rs) = rs"

definition nodesClosed :: "nat \<Rightarrow> heap \<Rightarrow> bool" where
  "nodesClosed n0 h \<longleftrightarrow>
     (\<forall>b. n0 \<le> b \<and> b < length h \<longrightarrow> (\<forall>r \<in> set (repliesOf (h ! b)). n0 \<le> r \<and> r < length h))"

definition sameBelow :: "nat \<Rightarrow> heap \<Rightarrow> heap \<Rightarrow> bool" where
  "sameBelow n0 h h' \<longleftrightarrow> length h' = length h \<and> (\<forall>a < n0. h' ! a = h ! a)"

text \<open>
  \<open>sortedRefs h a\<close>: the replies of the object at \<open>a\<close> are in ascending
  \<^verbatim>\<open>createdAt\<close> order; \<open>deepSorted n h a\<close>: so are those of every object at most \<open>n\<close>
  levels below it. \<open>settled n0 h h'\<close>: from \<open>h\<close> to \<open>h'\<close> no object has changed its
  fields, and no object from \<open>n0\<close> on whose replies were sorted has changed at all.
\<close>

definition sortedRefs :: "heap \<Rightarrow> addr \<Rightarrow> bool" where
  "sortedRefs h a \<longleftrightarrow> sorted (map (createdAtOf h) (repliesOf (h ! a)))"

fun deepSorted :: "nat \<Rightarrow> heap \<Rightarrow> addr \<Rightarrow> bool" where
  "deepSorted 0 h a = True"
| "deepSorted (Suc n) h a =
     (sortedRefs h a \<and> list_all (deepSorted n h) (repliesOf (h ! a)))"

definition settled :: "nat \<Rightarrow> heap \<Rightarrow> heap \<Rightarrow> bool" where
  "settled n0 h h' \<longleftrightarrow>
     length h' = length h \<and>
     (\<forall>b < length h. fieldsOf (h' ! b) = fieldsOf (h ! b)) \<and>
     (\<forall>b. n0 \<le> b \<and> b < length h \<and> sortedRefs h b \<longrightarrow> h' ! b = h ! b)"

section \<open>Example data\<close>

text \<open>A project with one file and four comments, tagged and dated as in the examples of
  the specification (\<open>T = 5000\<close>).\<close>

definition exProject :: project where
  "exProject = \<lparr>id_p = ''p1'', publicId_p = ''pub1'', title = ''Site'', userId_p = ''user-1'',
                 createdAt_p = 1000, updatedAt_p = 1000\<rparr>"

definition exFile :: fileRow where
  "exFile = \<lparr>id_f = ''f1'', projectId_f = ''p1'', name_f = ''a.png'', originalName = ''a.png'',
              mimeType = ''image/png'', size_f = ''10'', objectPath = ''/objects/a'',
              publicId_f = None, uploadedAt = 2000\<rparr>"

definition exComment :: "string \<Rightarrow> string option \<Rightarrow> string \<Rightarrow> int \<Rightarrow> comment" where
  "exComment i p tg t =
     \<lparr>id_c = i, fileId = ''f1'', parentId = p, name = ''Ann'', email = None, content = ''ok'',
      tag = tg, positionX = Some 1000, positionY = Some 2000, timestamp = None, page = None,
      createdAt = t, updatedAt = t\<rparr>"

definition exDb :: db where
  "exDb = \<lparr>users = [], projects = [exProject], files = [exFile],
            comments = [exComment ''c1'' None ''To Do'' 5000,
                        exComment ''c2'' None ''Resolved'' 4995,
                        exComment ''c3'' None ''In Progress'' 4998,
                        exComment ''c4'' None ''Resolved'' 4990],
            projectViews = []\<rparr>"


text \<open>A request whose \<^verbatim>\<open>name\<close> and \<^verbatim>\<open>content\<close> are the empty string.\<close>

definition exEmptyBody :: commentBody where
  "exEmptyBody = \<lparr>fileId_b = JStr ''f1'', parentId_b = JUndefined, name_b = JStr [],
                   email_b = JUndefined, content_b = JStr [], tag_b = JUndefined,
                   positionX_b = JUndefined, positionY_b = JUndefined,
                   timestamp_b = JUndefined, page_b = JUndefined\<rparr>"

text \<open>Comments of one file: two image pins, a reply, and a pin on page 2 of a PDF.\<close>

definition exPinned :: "comment list" where
  "exPinned = [exComment ''c1'' None ''To Do'' 5000,
               exComment ''c2'' None ''Resolved'' 4995,
               exComment ''c3'' (Some ''c1'') ''To Do'' 4998,
               (exComment ''c4'' None ''To Do'' 4000)\<lparr>page := Some 2\<rparr>]"

text \<open>The same comments, the reply created at the time of the first root.\<close>

definition exTied :: "comment list" where
  "exTied = [exComment ''c1'' None ''To Do'' 5000,
             exComment ''c2'' None ''Resolved'' 4995,
             exComment ''c3'' (Some ''c1'') ''To Do'' 5000,
             (exComment ''c4'' None ''To Do'' 4000)\<lparr>page := Some 2\<rparr>]"

text \<open>Comments on a video: \<open>time\<close> is the position in the video, in seconds.\<close>

definition exVideoComment :: "string \<Rightarrow> int \<Rightarrow> int \<Rightarrow> comment" where
  "exVideoComment i time t =
     (exComment i None ''To Do'' t)\<lparr>positionX := None, positionY := None, timestamp := Some time\<rparr>"

text \<open>
  A thread: a root with two replies, a reply to a comment that is not there, a second
  root, a comment that is its own parent, and two comments that are each other's parent.
\<close>

definition exThread :: "comment list" where
  "exThread = [exComment ''c1'' None ''To Do'' 5000,
               exComment ''c2'' (Some ''c1'') ''To Do'' 5020,
               exComment ''c3'' (Some ''c1'') ''To Do'' 5010,
               exComment ''c4'' (Some ''gone'') ''To Do'' 5030,
               exComment ''c5'' None ''To Do'' 4000,
               exComment ''c6'' (Some ''c6'') ''To Do'' 5040,
               exComment ''c7'' (Some ''c8'') ''To Do'' 5050,
               exComment ''c8'' (Some ''c7'') ''To Do'' 5060]"

text \<open>Two roots, each with one reply; the two replies are created at the same time.\<close>

definition exCousins :: "comment list" where
  "exCousins = [exComment ''c1'' None ''To Do'' 5000,
                exComment ''c2'' None ''To Do'' 5001,
                exComment ''c3'' (Some ''c1'') ''To Do'' 5007,
                exComment ''c4'' (Some ''c2'') ''To Do'' 5007]"

section \<open>Aggregation: proofs\<close>

lemma set_orderByDesc [simp]: "set (orderByDesc k rows) = set rows"
  by (simp add: orderByDesc_def)

lemma length_orderByDesc [simp]: "length (orderByDesc k rows) = length rows"
  by (simp add: orderByDesc_def)














lemma id_p_projectStats [simp]: "id_p (projectStats d userId p) = id_p p"
  by (simp add: projectStats_def Let_def project.defs)









text \<open>The unread flag over time: unread before the first view, read after a view at
  \<open>T + 1\<close>, unread again after a comment at \<open>T + 2\<close>.\<close>

lemma unread_scenario:
  "hasUnreadComments (projectStats exDb ''user-1'' exProject) \<and>
   \<not> hasUnreadComments
       (projectStats (fst (updateProjectView exDb ''user-1'' ''p1'' 5001 ''v1'')) ''user-1'' exProject) \<and>
   hasUnreadComments
       (projectStats
          (perform (CreateComment
             \<lparr>fileId_i = ''f1'', parentId_i = None, name_i = ''Bob'', email_i = None,
              content_i = ''new'', tag_i = None, positionX_i = None, positionY_i = None,
              timestamp_i = None, page_i = None\<rparr> ''c9'' 5002)
            (fst (updateProjectView exDb ''user-1'' ''p1'' 5001 ''v1'')))
          ''user-1'' exProject)"
  by code_simp



section \<open>The view ledger: proofs\<close>


lemma getProjectView_Some: "getProjectView d u p = Some v \<Longrightarrow> \<exists>vs. viewsOf d u p = v # vs"
  by (simp add: getProjectView_def viewsOf_def split: list.splits)













lemma projectViews_perform [simp]: "projectViews (perform operation d) = projectViews d"
  by (cases operation)
     (simp_all add: createUser_def createProject_def updateProject_def deleteProject_def
        createFile_def deleteFile_def deleteComment_def createComment_def Let_def
        split: option.splits if_splits)

lemma viewsOf_perform [simp]: "viewsOf (perform operation d) u p = viewsOf d u p"
  by (simp add: viewsOf_def)

lemma onePerPair_perform [simp]: "onePerPair (perform operation d) = onePerPair d"
  by (simp add: onePerPair_def)



subsection \<open>Schedules\<close>












section \<open>Comment submission: proofs\<close>

lemma postComment_missing_name:
  assumes "\<forall>s. name_b body \<noteq> JStr s"
  shows "\<exists>issues. postComment d body newId now = (d, BadRequest issues) \<and>
                  InvalidType ''name'' \<in> set issues"
proof -
  have "requiredString ''name'' (name_b body) = [InvalidType ''name'']"
    using assms by (cases "name_b body") (simp_all add: requiredString_def)
  then show ?thesis
    by (simp add: postComment_def safeParse_def Let_def)
qed

lemma postComment_missing_content:
  assumes "\<forall>s. content_b body \<noteq> JStr s"
  shows "\<exists>issues. postComment d body newId now = (d, BadRequest issues) \<and>
                  InvalidType ''content'' \<in> set issues"
proof -
  have "requiredString ''content'' (content_b body) = [InvalidType ''content'']"
    using assms by (cases "content_b body") (simp_all add: requiredString_def)
  then show ?thesis
    by (simp add: postComment_def safeParse_def Let_def)
qed

text \<open>A number outside the range of the column is refused with status 400, and an
  insert that the database refuses is answered with status 500; neither leaves a row.\<close>

lemma postComment_out_of_range:
  "postComment emptyDb (exEmptyBody\<lparr>positionX_b := JNum 2147483648\<rparr>) ''c9'' 7000 =
     (emptyDb, BadRequest [TooBig ''positionX''])"
  by (simp add: postComment_def safeParse_def exEmptyBody_def
      requiredString_def optionalString_def nullableString_def nullableNumber_def Let_def)

lemma postComment_insert_throws:
  "postComment emptyDb (exEmptyBody\<lparr>content_b := JStr [CHR 0x00]\<rparr>) ''c9'' 7000 =
     (emptyDb, ServerError)"
  by (simp add: postComment_def safeParse_def createComment_def exEmptyBody_def
      requiredString_def optionalString_def nullableString_def nullableNumber_def
      strOf_def strOptOf_def numOptOf_def storable_def storableOpt_def Let_def)

text \<open>
  Claim C7 says that a request with an empty \<^verbatim>\<open>name\<close> or \<^verbatim>\<open>content\<close> is rejected
  before persistence. The handler rejects a request in which one of them is missing, null
  or no string (the two lemmas above), but the schema accepts the empty string: the
  request below is answered with status 201 and its row is inserted.
\<close>

theorem postComment_empty_accepted:
  "postComment emptyDb exEmptyBody ''c9'' 7000 =
     (emptyDb\<lparr>comments :=
        [\<lparr>id_c = ''c9'', fileId = ''f1'', parentId = None, name = [], email = None,
          content = [], tag = ''To Do'', positionX = None, positionY = None,
          timestamp = None, page = None, createdAt = 7000, updatedAt = 7000\<rparr>]\<rparr>,
      Created
        \<lparr>id_c = ''c9'', fileId = ''f1'', parentId = None, name = [], email = None,
          content = [], tag = ''To Do'', positionX = None, positionY = None,
          timestamp = None, page = None, createdAt = 7000, updatedAt = 7000\<rparr>)"
  by (simp add: postComment_def safeParse_def createComment_def exEmptyBody_def emptyDb_def
      requiredString_def optionalString_def nullableString_def nullableNumber_def
      strOf_def strOptOf_def numOptOf_def storable_def storableOpt_def Let_def)

section \<open>Sorting by creation time\<close>

lemma mset_map_sort_key: "mset (map g (sort_key f xs)) = mset (map g xs)"
  by (metis mset_map mset_sort)

lemma distinct_map_sort_key: "distinct (map g (sort_key f xs)) = distinct (map g xs)"
  by (rule mset_eq_imp_distinct_iff) (rule mset_map_sort_key)

lemma sort_key_perm_inj:
  assumes d: "distinct (map f xs)" and m: "mset ys = mset xs"
  shows "sort_key f ys = sort_key f xs"
proof -
  have dy: "distinct (map f ys)"
    using d m by (metis mset_eq_imp_distinct_iff mset_map)
  have sets: "set ys = set xs" using m by (rule mset_eq_setD)
  have "map f (sort_key f ys) = map f (sort_key f xs)"
  proof (rule sorted_distinct_set_unique)
    show "sorted (map f (sort_key f ys))" "sorted (map f (sort_key f xs))" by simp_all
    show "distinct (map f (sort_key f ys))" using dy by (simp add: distinct_map_sort_key)
    show "distinct (map f (sort_key f xs))" using d by (simp add: distinct_map_sort_key)
    show "set (map f (sort_key f ys)) = set (map f (sort_key f xs))" using sets by simp
  qed
  moreover have "inj_on f (set (sort_key f ys) \<union> set (sort_key f xs))"
    using d sets by (simp add: distinct_map)
  ultimately show ?thesis by (rule map_inj_on)
qed

lemma sort_key_eq_iff:
  assumes "mset ys = mset xs"
  shows "sort_key f ys = sort_key f xs \<longleftrightarrow>
         (\<forall>k. filter (\<lambda>x. f x = k) ys = filter (\<lambda>x. f x = k) xs)"
proof
  assume eq: "sort_key f ys = sort_key f xs"
  show "\<forall>k. filter (\<lambda>x. f x = k) ys = filter (\<lambda>x. f x = k) xs"
  proof
    fix k
    have "filter (\<lambda>x. f x = k) ys = filter (\<lambda>x. f x = k) (sort_key f ys)"
      by (simp only: sort_key_stable)
    also have "\<dots> = filter (\<lambda>x. f x = k) xs"
      by (simp only: eq sort_key_stable)
    finally show "filter (\<lambda>x. f x = k) ys = filter (\<lambda>x. f x = k) xs" .
  qed
next
  assume ties: "\<forall>k. filter (\<lambda>x. f x = k) ys = filter (\<lambda>x. f x = k) xs"
  have "sort_key f xs = sort_key f ys"
  proof (rule properties_for_sort_key)
    show "mset (sort_key f ys) = mset xs" using assms by simp
    show "sorted (map f (sort_key f ys))" by simp
  next
    fix k assume "k \<in> set (sort_key f ys)"
    have "filter (\<lambda>x. f k = f x) (sort_key f ys) = filter (\<lambda>x. f x = f k) (sort_key f ys)"
      by (rule filter_cong) auto
    also have "\<dots> = filter (\<lambda>x. f x = f k) ys" by (rule sort_key_stable)
    also have "\<dots> = filter (\<lambda>x. f x = f k) xs" using ties by blast
    also have "\<dots> = filter (\<lambda>x. f k = f x) xs" by (rule filter_cong) auto
    finally show "filter (\<lambda>x. f k = f x) (sort_key f ys) = filter (\<lambda>x. f k = f x) xs" .
  qed
  then show "sort_key f ys = sort_key f xs" by simp
qed

lemma sort_filter_eq_iff:
  fixes f :: "'a \<Rightarrow> 'k::linorder"
  assumes "mset cs' = mset cs"
  shows "sort_key f (filter P cs') = sort_key f (filter P cs) \<longleftrightarrow>
         (\<forall>k. filter (\<lambda>x. P x \<and> f x = k) cs' = filter (\<lambda>x. P x \<and> f x = k) cs)"
proof -
  have "mset (filter P cs') = mset (filter P cs)" using assms by (metis mset_filter)
  from sort_key_eq_iff [OF this, of f] show ?thesis by simp
qed

lemma sort_filter_ties:
  "filter (\<lambda>x. f x = k) (sort_key f (filter P cs)) = filter (\<lambda>x. P x \<and> f x = k) cs"
  by (simp add: sort_key_stable)

lemma distinct_ties:
  fixes f :: "'a \<Rightarrow> 'k::linorder"
  assumes "distinct (map f (filter P cs))" and "mset cs' = mset cs"
  shows "filter (\<lambda>x. P x \<and> f x = k) cs' = filter (\<lambda>x. P x \<and> f x = k) cs"
proof -
  have "mset (filter P cs') = mset (filter P cs)" using assms(2) by (metis mset_filter)
  with assms(1) have "sort_key f (filter P cs') = sort_key f (filter P cs)"
    by (rule sort_key_perm_inj)
  with sort_filter_eq_iff [OF assms(2)] show ?thesis by blast
qed

section \<open>Pins: proofs\<close>

lemma map_snd_imagePins: "map snd (imagePins cs) = rootComments cs"
  by (simp add: imagePins_def enumerate_eq_zip comp_def case_prod_unfold)

lemma map_fst_imagePins:
  "map fst (imagePins cs) = map (\<lambda>i. int i + 1) [0..<length (rootComments cs)]"
proof -
  have "map (\<lambda>x. int (fst x) + 1) (zip is xs) = map (\<lambda>i. int i + 1) is"
    if "length is = length xs" for "is" :: "nat list" and xs :: "comment list"
    using that by (induction "is" xs rule: list_induct2) simp_all
  then show ?thesis
    by (simp add: imagePins_def enumerate_eq_zip comp_def case_prod_unfold)
qed

lemma set_rootComments:
  "set (rootComments cs) =
     {c \<in> set cs. parentKey c = None \<and> positionX c \<noteq> None \<and> positionY c \<noteq> None}"
  by (auto simp: rootComments_def sortByCreatedAt_def)

lemma set_rootCommentsForPage:
  "set (rootCommentsForPage cs p) =
     {c \<in> set cs. parentKey c = None \<and> page c = Some p \<and>
                  positionX c \<noteq> None \<and> positionY c \<noteq> None}"
  by (auto simp: rootCommentsForPage_def sortByCreatedAt_def)

lemma set_allRootComments:
  "set (allRootComments cs) = {c \<in> set cs. parentKey c = None \<and> page c \<noteq> None}"
  by (auto simp: allRootComments_def sortByCreatedAt_def)

lemma map_snd_pdfPins: "map snd (pdfPins cs p) = rootCommentsForPage cs p"
  by (simp add: pdfPins_def comp_def)

lemma findIndex_distinct:
  "c \<in> set xs \<Longrightarrow> distinct (map g xs) \<Longrightarrow>
     0 \<le> findIndex (\<lambda>d. g d = g c) xs \<and>
     findIndex (\<lambda>d. g d = g c) xs < int (length xs) \<and>
     xs ! nat (findIndex (\<lambda>d. g d = g c) xs) = c"
proof (induction xs)
  case Nil
  then show ?case by simp
next
  case (Cons x xs)
  show ?case
  proof (cases "g x = g c")
    case True
    with Cons.prems have "x = c" by (auto simp: image_iff)
    with True show ?thesis by simp
  next
    case False
    with Cons.prems have "c \<in> set xs" "distinct (map g xs)" by auto
    from Cons.IH [OF this] False show ?thesis
      by (simp add: Let_def nat_add_distrib)
  qed
qed

lemma distinct_ids_allRootComments:
  "distinct (map id_c cs) \<Longrightarrow> distinct (map id_c (allRootComments cs))"
  by (simp add: allRootComments_def sortByCreatedAt_def distinct_map_sort_key distinct_map_filter)

lemma rootCommentsForPage_filter:
  "rootCommentsForPage cs p =
     filter (\<lambda>c. page c = Some p \<and> positionX c \<noteq> None \<and> positionY c \<noteq> None)
       (allRootComments cs)"
proof -
  have "filter (\<lambda>c. page c = Some p \<and> positionX c \<noteq> None \<and> positionY c \<noteq> None)
          (filter (\<lambda>c. parentKey c = None \<and> page c \<noteq> None) cs) =
        filter (\<lambda>c. parentKey c = None \<and> page c = Some p \<and>
                    positionX c \<noteq> None \<and> positionY c \<noteq> None) cs"
    unfolding filter_filter by (rule filter_cong) auto
  then show ?thesis
    by (simp only: rootCommentsForPage_def allRootComments_def sortByCreatedAt_def filter_sort)
qed

lemma pdfPins_allRootComments:
  "allRootComments cs' = allRootComments cs \<Longrightarrow> pdfPins cs' p = pdfPins cs p"
  by (simp only: pdfPins_def rootCommentsForPage_filter)

lemma imagePins_eq_iff: "imagePins cs' = imagePins cs \<longleftrightarrow> rootComments cs' = rootComments cs"
proof
  assume "imagePins cs' = imagePins cs"
  then have "map snd (imagePins cs') = map snd (imagePins cs)" by simp
  then show "rootComments cs' = rootComments cs" by (simp only: map_snd_imagePins)
next
  assume "rootComments cs' = rootComments cs"
  then show "imagePins cs' = imagePins cs" by (simp only: imagePins_def)
qed

text \<open>
  Claim C5, amended. On an image the pins are exactly the root comments with both
  coordinates, numbered 1 to N in ascending \<^verbatim>\<open>createdAt\<close> order, those created at the
  same time in the order of the input. On a PDF the pins of the displayed page are
  exactly the root comments of that page with both coordinates, and, the ids being
  pairwise distinct, the number of a pin is its position in the ascending
  \<^verbatim>\<open>createdAt\<close> order of the root comments with a page, of all pages, those created at
  the same time in the order of the input. Other roots and all replies have no pin. For
  a permutation of the input, the pins of an image and their numbers are the same exactly
  when, for every time, the root comments with both coordinates created at that time
  come in the same order in both inputs, and the numbering of a PDF is the same exactly
  when this holds of the root comments with a page; so they are the same when the
  creation times of these comments are pairwise distinct. On a video nothing is drawn and
  no number is given: the root comments with a timestamp are listed in ascending order of
  their timestamps, those with the same timestamp in the order of the input, each under
  its time.
\<close>

theorem pin_numbering:
  "set (map snd (imagePins cs)) =
     {c \<in> set cs. parentKey c = None \<and> positionX c \<noteq> None \<and> positionY c \<noteq> None} \<and>
   map fst (imagePins cs) = map (\<lambda>i. int i + 1) [0..<length (imagePins cs)] \<and>
   sorted (map (createdAt \<circ> snd) (imagePins cs)) \<and>
   (\<forall>t. filter (\<lambda>c. createdAt c = t) (map snd (imagePins cs)) =
        filter (\<lambda>c. (parentKey c = None \<and> positionX c \<noteq> None \<and> positionY c \<noteq> None) \<and>
                    createdAt c = t) cs) \<and>
   set (map snd (pdfPins cs p)) =
     {c \<in> set cs. parentKey c = None \<and> page c = Some p \<and>
                  positionX c \<noteq> None \<and> positionY c \<noteq> None} \<and>
   sorted (map createdAt (allRootComments cs)) \<and>
   set (allRootComments cs) = {c \<in> set cs. parentKey c = None \<and> page c \<noteq> None} \<and>
   (\<forall>t. filter (\<lambda>c. createdAt c = t) (allRootComments cs) =
        filter (\<lambda>c. (parentKey c = None \<and> page c \<noteq> None) \<and> createdAt c = t) cs) \<and>
   (distinct (map id_c cs) \<longrightarrow>
      (\<forall>(n, c) \<in> set (pdfPins cs p).
         1 \<le> n \<and> n \<le> int (length (allRootComments cs)) \<and>
         allRootComments cs ! nat (n - 1) = c)) \<and>
   (mset cs' = mset cs \<longrightarrow>
      (imagePins cs' = imagePins cs \<longleftrightarrow>
         (\<forall>t. filter (\<lambda>c. (parentKey c = None \<and> positionX c \<noteq> None \<and> positionY c \<noteq> None) \<and>
                          createdAt c = t) cs' =
              filter (\<lambda>c. (parentKey c = None \<and> positionX c \<noteq> None \<and> positionY c \<noteq> None) \<and>
                          createdAt c = t) cs)) \<and>
      (allRootComments cs' = allRootComments cs \<longleftrightarrow>
         (\<forall>t. filter (\<lambda>c. (parentKey c = None \<and> page c \<noteq> None) \<and> createdAt c = t) cs' =
              filter (\<lambda>c. (parentKey c = None \<and> page c \<noteq> None) \<and> createdAt c = t) cs)) \<and>
      (allRootComments cs' = allRootComments cs \<longrightarrow> pdfPins cs' p = pdfPins cs p) \<and>
      (distinct (map createdAt (filter
          (\<lambda>c. parentKey c = None \<and> positionX c \<noteq> None \<and> positionY c \<noteq> None) cs)) \<longrightarrow>
         imagePins cs' = imagePins cs) \<and>
      (distinct (map createdAt (filter (\<lambda>c. parentKey c = None \<and> page c \<noteq> None) cs)) \<longrightarrow>
         pdfPins cs' p = pdfPins cs p)) \<and>
   map snd (videoTimeline cs) = timestampComments cs \<and>
   map fst (videoTimeline cs) = map (\<lambda>c. formatTime (timestampOr0 c)) (timestampComments cs) \<and>
   set (timestampComments cs) = {c \<in> set cs. parentKey c = None \<and> timestamp c \<noteq> None} \<and>
   sorted (map timestampOr0 (timestampComments cs)) \<and>
   (\<forall>t. filter (\<lambda>c. timestampOr0 c = t) (timestampComments cs) =
        filter (\<lambda>c. (timestamp c \<noteq> None \<and> parentKey c = None) \<and> timestampOr0 c = t) cs)"
proof -
  let ?img = "\<lambda>c. parentKey c = None \<and> positionX c \<noteq> None \<and> positionY c \<noteq> None"
  let ?pg = "\<lambda>c. parentKey c = None \<and> page c \<noteq> None"
  have a: "set (map snd (imagePins cs)) = {c \<in> set cs. ?img c}"
    by (simp only: map_snd_imagePins set_rootComments)
  have len: "length (imagePins cs) = length (rootComments cs)"
    by (metis length_map map_snd_imagePins)
  have b: "map fst (imagePins cs) = map (\<lambda>i. int i + 1) [0..<length (imagePins cs)]"
    by (simp only: len map_fst_imagePins)
  have "map (createdAt \<circ> snd) (imagePins cs) = map createdAt (rootComments cs)"
    by (metis map_map map_snd_imagePins)
  then have c: "sorted (map (createdAt \<circ> snd) (imagePins cs))"
    by (simp add: rootComments_def sortByCreatedAt_def)
  have d: "\<forall>t. filter (\<lambda>c. createdAt c = t) (map snd (imagePins cs)) =
        filter (\<lambda>c. ?img c \<and> createdAt c = t) cs"
    by (simp only: map_snd_imagePins rootComments_def sortByCreatedAt_def sort_filter_ties) simp
  have e: "set (map snd (pdfPins cs p)) =
     {c \<in> set cs. parentKey c = None \<and> page c = Some p \<and>
                  positionX c \<noteq> None \<and> positionY c \<noteq> None}"
    by (simp only: map_snd_pdfPins set_rootCommentsForPage)
  have s: "sorted (map createdAt (allRootComments cs))"
    by (simp add: allRootComments_def sortByCreatedAt_def)
  have s': "set (allRootComments cs) = {c \<in> set cs. ?pg c}"
    by (rule set_allRootComments)
  have s'': "\<forall>t. filter (\<lambda>c. createdAt c = t) (allRootComments cs) =
        filter (\<lambda>c. ?pg c \<and> createdAt c = t) cs"
    by (simp only: allRootComments_def sortByCreatedAt_def sort_filter_ties) simp
  have f: "\<forall>(n, c) \<in> set (pdfPins cs p).
         1 \<le> n \<and> n \<le> int (length (allRootComments cs)) \<and>
         allRootComments cs ! nat (n - 1) = c" if ids: "distinct (map id_c cs)"
  proof (clarify)
    fix n c assume "(n, c) \<in> set (pdfPins cs p)"
    then have c: "c \<in> set (rootCommentsForPage cs p)"
      and n: "n = findIndex (\<lambda>d. id_c d = id_c c) (allRootComments cs) + 1"
      by (auto simp: pdfPins_def)
    from c have "c \<in> set (allRootComments cs)"
      by (auto simp: set_rootCommentsForPage set_allRootComments)
    from findIndex_distinct [OF this distinct_ids_allRootComments [OF ids]]
    show "1 \<le> n \<and> n \<le> int (length (allRootComments cs)) \<and>
         allRootComments cs ! nat (n - 1) = c"
      by (simp add: n)
  qed
  have f': "distinct (map id_c cs) \<longrightarrow>
      (\<forall>(n, c) \<in> set (pdfPins cs p).
         1 \<le> n \<and> n \<le> int (length (allRootComments cs)) \<and>
         allRootComments cs ! nat (n - 1) = c)"
    using f by blast
  have g: "mset cs' = mset cs \<longrightarrow>
      (imagePins cs' = imagePins cs \<longleftrightarrow>
         (\<forall>t. filter (\<lambda>c. ?img c \<and> createdAt c = t) cs' =
              filter (\<lambda>c. ?img c \<and> createdAt c = t) cs)) \<and>
      (allRootComments cs' = allRootComments cs \<longleftrightarrow>
         (\<forall>t. filter (\<lambda>c. ?pg c \<and> createdAt c = t) cs' =
              filter (\<lambda>c. ?pg c \<and> createdAt c = t) cs)) \<and>
      (allRootComments cs' = allRootComments cs \<longrightarrow> pdfPins cs' p = pdfPins cs p) \<and>
      (distinct (map createdAt (filter ?img cs)) \<longrightarrow> imagePins cs' = imagePins cs) \<and>
      (distinct (map createdAt (filter ?pg cs)) \<longrightarrow> pdfPins cs' p = pdfPins cs p)"
  proof
    assume perm: "mset cs' = mset cs"
    have g1: "imagePins cs' = imagePins cs \<longleftrightarrow>
        (\<forall>t. filter (\<lambda>c. ?img c \<and> createdAt c = t) cs' =
             filter (\<lambda>c. ?img c \<and> createdAt c = t) cs)"
      unfolding imagePins_eq_iff rootComments_def sortByCreatedAt_def
      using perm by (rule sort_filter_eq_iff)
    have g2: "allRootComments cs' = allRootComments cs \<longleftrightarrow>
        (\<forall>t. filter (\<lambda>c. ?pg c \<and> createdAt c = t) cs' =
             filter (\<lambda>c. ?pg c \<and> createdAt c = t) cs)"
      unfolding allRootComments_def sortByCreatedAt_def
      using perm by (rule sort_filter_eq_iff)
    have g3: "allRootComments cs' = allRootComments cs \<longrightarrow> pdfPins cs' p = pdfPins cs p"
      by (rule impI) (rule pdfPins_allRootComments)
    have g4: "distinct (map createdAt (filter ?img cs)) \<longrightarrow> imagePins cs' = imagePins cs"
    proof
      assume dist: "distinct (map createdAt (filter ?img cs))"
      have "filter (\<lambda>c. ?img c \<and> createdAt c = t) cs' =
            filter (\<lambda>c. ?img c \<and> createdAt c = t) cs" for t
        using dist perm by (rule distinct_ties)
      then have "\<forall>t. filter (\<lambda>c. ?img c \<and> createdAt c = t) cs' =
            filter (\<lambda>c. ?img c \<and> createdAt c = t) cs" ..
      then show "imagePins cs' = imagePins cs" by (rule g1 [THEN iffD2])
    qed
    have g5: "distinct (map createdAt (filter ?pg cs)) \<longrightarrow> pdfPins cs' p = pdfPins cs p"
    proof
      assume dist: "distinct (map createdAt (filter ?pg cs))"
      have "filter (\<lambda>c. ?pg c \<and> createdAt c = t) cs' =
            filter (\<lambda>c. ?pg c \<and> createdAt c = t) cs" for t
        using dist perm by (rule distinct_ties)
      then have "\<forall>t. filter (\<lambda>c. ?pg c \<and> createdAt c = t) cs' =
            filter (\<lambda>c. ?pg c \<and> createdAt c = t) cs" ..
      then have "allRootComments cs' = allRootComments cs" by (rule g2 [THEN iffD2])
      then show "pdfPins cs' p = pdfPins cs p" by (rule pdfPins_allRootComments)
    qed
    from g1 g2 g3 g4 g5 show "(imagePins cs' = imagePins cs \<longleftrightarrow>
         (\<forall>t. filter (\<lambda>c. ?img c \<and> createdAt c = t) cs' =
              filter (\<lambda>c. ?img c \<and> createdAt c = t) cs)) \<and>
      (allRootComments cs' = allRootComments cs \<longleftrightarrow>
         (\<forall>t. filter (\<lambda>c. ?pg c \<and> createdAt c = t) cs' =
              filter (\<lambda>c. ?pg c \<and> createdAt c = t) cs)) \<and>
      (allRootComments cs' = allRootComments cs \<longrightarrow> pdfPins cs' p = pdfPins cs p) \<and>
      (distinct (map createdAt (filter ?img cs)) \<longrightarrow> imagePins cs' = imagePins cs) \<and>
      (distinct (map createdAt (filter ?pg cs)) \<longrightarrow> pdfPins cs' p = pdfPins cs p)"
      by (intro conjI)
  qed
  have v1: "map snd (videoTimeline cs) = timestampComments cs"
    by (simp add: videoTimeline_def comp_def)
  have v2: "map fst (videoTimeline cs) =
      map (\<lambda>c. formatTime (timestampOr0 c)) (timestampComments cs)"
    by (simp add: videoTimeline_def comp_def)
  have v3: "set (timestampComments cs) = {c \<in> set cs. parentKey c = None \<and> timestamp c \<noteq> None}"
    by (auto simp: timestampComments_def)
  have v4: "sorted (map timestampOr0 (timestampComments cs))"
    by (simp add: timestampComments_def)
  have v5: "\<forall>t. filter (\<lambda>c. timestampOr0 c = t) (timestampComments cs) =
        filter (\<lambda>c. (timestamp c \<noteq> None \<and> parentKey c = None) \<and> timestampOr0 c = t) cs"
    by (simp only: timestampComments_def sort_filter_ties) simp
  from a b c d e s s' s'' f' g v1 v2 v3 v4 v5 show ?thesis
    by (intro conjI)
qed

text \<open>
  Claim C5 as stated fails. Two pins created at the same time swap their numbers with
  the order of the input; and the comments of a video are listed by their timestamps,
  not by their creation times, under a time and not a number.
\<close>

theorem pin_numbering_ties:
  "imagePins [exComment ''c1'' None ''To Do'' 5000, exComment ''c2'' None ''To Do'' 5000] =
     [(1, exComment ''c1'' None ''To Do'' 5000), (2, exComment ''c2'' None ''To Do'' 5000)] \<and>
   imagePins [exComment ''c2'' None ''To Do'' 5000, exComment ''c1'' None ''To Do'' 5000] =
     [(1, exComment ''c2'' None ''To Do'' 5000), (2, exComment ''c1'' None ''To Do'' 5000)] \<and>
   videoTimeline [exVideoComment ''c1'' 90 4000, exVideoComment ''c2'' 30 5000] =
     [(''0:30'', exVideoComment ''c2'' 30 5000), (''1:30'', exVideoComment ''c1'' 90 4000)]"
  by code_simp

theorem pin_numbering_witness:
  "distinct (map id_c exTied) \<and> mset (rev exTied) = mset exTied \<and>
   \<not> distinct (map createdAt exTied) \<and>
   distinct (map createdAt (filter
     (\<lambda>c. parentKey c = None \<and> positionX c \<noteq> None \<and> positionY c \<noteq> None) exTied)) \<and>
   distinct (map createdAt (filter (\<lambda>c. parentKey c = None \<and> page c \<noteq> None) exTied)) \<and>
   pdfPins exTied 2 = [(1, (exComment ''c4'' None ''To Do'' 4000)\<lparr>page := Some 2\<rparr>)] \<and>
   allRootComments exTied ! 0 = (exComment ''c4'' None ''To Do'' 4000)\<lparr>page := Some 2\<rparr> \<and>
   imagePins (rev exTied) = imagePins exTied \<and>
   pdfPins (rev exTied) 2 = pdfPins exTied 2"
proof -
  have ids: "distinct (map id_c exTied)"
    by (simp add: exTied_def exComment_def)
  have times: "\<not> distinct (map createdAt exTied)"
    by (simp add: exTied_def exComment_def)
  have img: "distinct (map createdAt (filter
     (\<lambda>c. parentKey c = None \<and> positionX c \<noteq> None \<and> positionY c \<noteq> None) exTied))"
    by (simp add: exTied_def exComment_def parentKey_def)
  have pg: "distinct (map createdAt (filter (\<lambda>c. parentKey c = None \<and> page c \<noteq> None) exTied))"
    by (simp add: exTied_def exComment_def parentKey_def)
  have perm: "mset (rev exTied) = mset exTied" by simp
  have pdf: "pdfPins exTied 2 = [(1, (exComment ''c4'' None ''To Do'' 4000)\<lparr>page := Some 2\<rparr>)]"
    by (simp add: pdfPins_def rootCommentsForPage_def allRootComments_def sortByCreatedAt_def
        parentKey_def exTied_def exComment_def)
  from pin_numbering [of exTied 2 "rev exTied"] ids img pg perm
  have "(\<forall>(n, c) \<in> set (pdfPins exTied 2).
           1 \<le> n \<and> n \<le> int (length (allRootComments exTied)) \<and>
           allRootComments exTied ! nat (n - 1) = c) \<and>
        imagePins (rev exTied) = imagePins exTied \<and>
        pdfPins (rev exTied) 2 = pdfPins exTied 2"
    by (elim conjE) (simp only: simp_thms)
  with ids times img pg perm pdf show ?thesis by simp
qed

section \<open>buildCommentTree: the two loops\<close>

lemma lookup_Some [simp]: "a < length h \<Longrightarrow> lookup h a = Some (h ! a)"
  by (simp add: lookup_def)

lemma lookup_None [simp]: "\<not> a < length h \<Longrightarrow> lookup h a = None"
  by (simp add: lookup_def)

lemma initNodes_closed:
  "\<forall>a \<in> set as. a < length h \<Longrightarrow>
     initNodes as (h, m) =
       Inr (h @ map (\<lambda>a. CommentWithReplies (fieldsOf (h ! a)) []) as,
            m(map (\<lambda>a. id_c (fieldsOf (h ! a))) as [\<mapsto>] [length h..<length h + length as]))"
proof (induction as arbitrary: h m)
  case Nil
  then show ?case by simp
next
  case (Cons a as)
  let ?h' = "h @ [CommentWithReplies (fieldsOf (h ! a)) []]"
  from Cons.prems have a: "a < length h" and as: "\<forall>b \<in> set as. b < length h" by simp_all
  from as have as': "\<forall>b \<in> set as. b < length ?h'" by auto
  from as have same: "\<forall>b \<in> set as. ?h' ! b = h ! b" by (simp add: nth_append)
  have upt: "[length h..<length h + length (a # as)] =
             length h # [length ?h'..<length ?h' + length as]"
    by (subst upt_rec) simp
  have maps: "map (\<lambda>b. CommentWithReplies (fieldsOf (?h' ! b)) []) as =
              map (\<lambda>b. CommentWithReplies (fieldsOf (h ! b)) []) as"
             "map (\<lambda>b. id_c (fieldsOf (?h' ! b))) as = map (\<lambda>b. id_c (fieldsOf (h ! b))) as"
    using same by simp_all
  have "initNodes (a # as) (h, m) =
        initNodes as (?h', m(id_c (fieldsOf (h ! a)) \<mapsto> length h))"
    using a by (simp add: Let_def)
  also have "\<dots> =
      Inr (?h' @ map (\<lambda>b. CommentWithReplies (fieldsOf (?h' ! b)) []) as,
           (m(id_c (fieldsOf (h ! a)) \<mapsto> length h))
             (map (\<lambda>b. id_c (fieldsOf (?h' ! b))) as [\<mapsto>]
                [length ?h'..<length ?h' + length as]))"
    by (rule Cons.IH [OF as'])
  also have "\<dots> =
      Inr (h @ map (\<lambda>b. CommentWithReplies (fieldsOf (h ! b)) []) (a # as),
           m(map (\<lambda>b. id_c (fieldsOf (h ! b))) (a # as) [\<mapsto>]
               [length h..<length h + length (a # as)]))"
    by (simp only: maps upt list.map map_upds_Cons append_assoc append_Cons append_Nil)
  finally show ?case .
qed

lemma map_upds_distinct_nth:
  "distinct ks \<Longrightarrow> length ks = length vs \<Longrightarrow> i < length ks \<Longrightarrow>
     (m(ks [\<mapsto>] vs)) (ks ! i) = Some (vs ! i)"
proof (induction ks arbitrary: vs m i)
  case Nil
  then show ?case by simp
next
  case (Cons k ks)
  then obtain v vs' where vs: "vs = v # vs'" by (cases vs) auto
  show ?case
  proof (cases i)
    case 0
    with Cons.prems vs show ?thesis by (simp add: map_upds_apply_nontin)
  next
    case (Suc j)
    have "(m(k # ks [\<mapsto>] v # vs')) = (m(k \<mapsto> v))(ks [\<mapsto>] vs')" by simp
    moreover have "((m(k \<mapsto> v))(ks [\<mapsto>] vs')) (ks ! j) = Some (vs' ! j)"
      using Cons.prems vs Suc by (intro Cons.IH) simp_all
    ultimately show ?thesis using vs Suc by (simp del: fun_upd_apply map_upds_Cons)
  qed
qed

lemma nodeMap_nth:
  "distinct (map id_c cs) \<Longrightarrow> i < length cs \<Longrightarrow>
     nodeMap h0 cs (id_c (cs ! i)) = Some (length h0 + i)"
  using map_upds_distinct_nth [of "map id_c cs" "[length h0..<length h0 + length cs]" i Map.empty]
  by (simp add: nodeMap_def)

lemma nodeMap_None: "k \<notin> id_c ` set cs \<Longrightarrow> nodeMap h0 cs k = None"
  by (simp add: nodeMap_def map_upds_apply_nontin)

lemma nodeMap_Some:
  assumes "distinct (map id_c cs)" and "nodeMap h0 cs k = Some p"
  shows "\<exists>i < length cs. k = id_c (cs ! i) \<and> p = length h0 + i"
proof -
  from assms(2) have "k \<in> id_c ` set cs"
    using nodeMap_None [of k cs h0] by force
  then obtain i where i: "i < length cs" "k = id_c (cs ! i)"
    by (auto simp: in_set_conv_nth)
  with nodeMap_nth [OF assms(1) i(1), of h0] assms(2) show ?thesis by auto
qed

lemma initNodes_nodeMap:
  assumes "\<forall>a \<in> set as. a < length h0" and "cs = map (\<lambda>a. fieldsOf (h0 ! a)) as"
  shows "initNodes as (h0, Map.empty) = Inr (linked h0 cs 0, nodeMap h0 cs)"
proof -
  have "map (\<lambda>i. CommentWithReplies (cs ! i) []) [0..<length cs] =
        map (\<lambda>c. CommentWithReplies c []) cs"
    by (rule nth_equalityI) simp_all
  then show ?thesis
    using initNodes_closed [OF assms(1), of Map.empty]
    by (simp add: linked_def childIdx_def nodeMap_def assms(2) comp_def)
qed


lemma childIdx_Suc:
  "childIdx cs (Suc k) i =
     childIdx cs k i @ (if parentKey (cs ! k) = Some (id_c (cs ! i)) then [k] else [])"
  by (simp add: childIdx_def)

lemma rootIdx_Suc:
  "rootIdx cs (Suc k) = rootIdx cs k @ (if parentKey (cs ! k) = None then [k] else [])"
  by (simp add: rootIdx_def)

lemma length_linked [simp]: "length (linked h0 cs k) = length h0 + length cs"
  by (simp add: linked_def)

lemma linked_nth_low [simp]: "a < length h0 \<Longrightarrow> linked h0 cs k ! a = h0 ! a"
  by (simp add: linked_def nth_append)

lemma linked_nth_node [simp]:
  "i < length cs \<Longrightarrow>
     linked h0 cs k ! (length h0 + i) =
       CommentWithReplies (cs ! i) (map ((+) (length h0)) (childIdx cs k i))"
  by (simp add: linked_def nth_append)

lemma linked_Suc_same:
  assumes "\<forall>i < length cs. parentKey (cs ! k) \<noteq> Some (id_c (cs ! i))"
  shows "linked h0 cs (Suc k) = linked h0 cs k"
  using assms by (simp add: linked_def childIdx_Suc)

lemma linked_Suc_push:
  assumes ids: "distinct (map id_c cs)" and i: "i < length cs"
    and p: "parentKey (cs ! k) = Some (id_c (cs ! i))"
  shows "linked h0 cs (Suc k) =
           (linked h0 cs k)[length h0 + i :=
              CommentWithReplies (cs ! i)
                (map ((+) (length h0)) (childIdx cs k i) @ [length h0 + k])]"
proof (rule nth_equalityI)
  show "length (linked h0 cs (Suc k)) = length ((linked h0 cs k)[length h0 + i :=
              CommentWithReplies (cs ! i)
                (map ((+) (length h0)) (childIdx cs k i) @ [length h0 + k])])"
    by simp
next
  fix x assume "x < length (linked h0 cs (Suc k))"
  then have x: "x < length h0 + length cs" by simp
  show "linked h0 cs (Suc k) ! x = (linked h0 cs k)[length h0 + i :=
              CommentWithReplies (cs ! i)
                (map ((+) (length h0)) (childIdx cs k i) @ [length h0 + k])] ! x"
  proof (cases "x < length h0")
    case True
    then show ?thesis by simp
  next
    case False
    then obtain j where j: "x = length h0 + j" "j < length cs"
      using x by (metis add_diff_inverse_nat nat_add_left_cancel_less)
    show ?thesis
    proof (cases "j = i")
      case True
      with j p i show ?thesis by (simp add: childIdx_Suc)
    next
      case False
      with ids i j have "id_c (cs ! j) \<noteq> id_c (cs ! i)"
        by (simp add: distinct_conv_nth)
      with p have "parentKey (cs ! k) \<noteq> Some (id_c (cs ! j))" by simp
      with j False show ?thesis by (simp add: childIdx_Suc)
    qed
  qed
qed

lemma linkNodes_closed:
  assumes valid: "\<forall>a \<in> set as. a < length h0"
    and cs: "cs = map (\<lambda>a. fieldsOf (h0 ! a)) as"
    and ids: "distinct (map id_c cs)"
    and k: "k \<le> length cs"
  shows "linkNodes (drop k as) (nodeMap h0 cs) (linked h0 cs k, linkedRoots h0 cs k) =
           Inr (linked h0 cs (length cs), linkedRoots h0 cs (length cs))"
  using k
proof (induction k rule: inc_induct)
  case base
  have "drop (length cs) as = []" by (simp add: cs)
  then show ?case by simp
next
  case (step k)
  from step.hyps cs have k: "k < length as" by simp
  let ?a = "as ! k"
  have a: "?a < length h0" using valid k by simp
  have ck: "fieldsOf (h0 ! ?a) = cs ! k" using k by (simp add: cs)
  have drop: "drop k as = ?a # drop (Suc k) as"
    using k by (simp add: Cons_nth_drop_Suc)
  have look: "lookup (linked h0 cs k) ?a = Some (h0 ! ?a)"
    using a by (simp add: lookup_def)
  have m: "nodeMap h0 cs (id_c (cs ! k)) = Some (length h0 + k)"
    using ids step.hyps by (simp add: nodeMap_nth)
  show ?case
  proof (cases "parentKey (cs ! k)")
    case None
    then have "linked h0 cs (Suc k) = linked h0 cs k"
      by (simp add: linked_Suc_same)
    moreover have "linkedRoots h0 cs (Suc k) = linkedRoots h0 cs k @ [length h0 + k]"
      using None by (simp add: linkedRoots_def rootIdx_Suc)
    ultimately show ?thesis
      using step.IH by (simp add: drop look ck m None)
  next
    case (Some pid)
    then have roots: "linkedRoots h0 cs (Suc k) = linkedRoots h0 cs k"
      by (simp add: linkedRoots_def rootIdx_Suc)
    show ?thesis
    proof (cases "nodeMap h0 cs pid")
      case None
      then have "\<forall>i < length cs. pid \<noteq> id_c (cs ! i)"
        using nodeMap_nth [OF ids, of _ h0] by force
      then have "linked h0 cs (Suc k) = linked h0 cs k"
        using Some by (simp add: linked_Suc_same)
      then show ?thesis
        using step.IH roots by (simp add: drop look ck m Some None)
    next
      case (Some p)
      from nodeMap_Some [OF ids Some] obtain i where
        i: "i < length cs" "pid = id_c (cs ! i)" "p = length h0 + i" by blast
      have push: "push (linked h0 cs k) p (length h0 + k) = Inr (linked h0 cs (Suc k))"
        using i \<open>parentKey (cs ! k) = Some pid\<close>
        by (simp add: push_def lookup_def linked_Suc_push [OF ids i(1)])
      show ?thesis
        using step.IH roots
        by (simp add: drop look ck m \<open>parentKey (cs ! k) = Some pid\<close> Some push)
    qed
  qed
qed

section \<open>buildCommentTree: sorting the replies\<close>

lemma those_eq_Some_iff: "those xs = Some ys \<longleftrightarrow> xs = map Some ys"
proof (induction xs arbitrary: ys)
  case Nil
  then show ?case by auto
next
  case (Cons x xs)
  then show ?case by (cases x) (auto split: option.splits)
qed

lemma insort_key_map:
  "insort_key f (g x) (map g ys) = map g (insort_key (\<lambda>a. f (g a)) x ys)"
  by (induction ys) simp_all

lemma sort_key_map: "sort_key f (map g xs) = map g (sort_key (\<lambda>a. f (g a)) xs)"
  by (induction xs) (simp_all add: insort_key_map)

lemma insort_key_cong_set:
  "f x = g x \<Longrightarrow> \<forall>y \<in> set ys. f y = g y \<Longrightarrow> insort_key f x ys = insort_key g x ys"
  by (induction ys) simp_all

lemma sort_key_cong_set: "\<forall>x \<in> set xs. f x = g x \<Longrightarrow> sort_key f xs = sort_key g xs"
proof (induction xs)
  case Nil
  then show ?case by simp
next
  case (Cons x xs)
  then have ih: "sort_key f xs = sort_key g xs" by simp
  have "insort_key f x (sort_key g xs) = insort_key g x (sort_key g xs)"
    using Cons.prems by (intro insort_key_cong_set) simp_all
  with ih show ?case by simp
qed

lemma filter_conv_nth:
  "filter P xs = map ((!) xs) (filter (\<lambda>j. P (xs ! j)) [0..<length xs])"
proof (induction xs rule: rev_induct)
  case Nil
  then show ?case by simp
next
  case (snoc x xs)
  have "filter (\<lambda>j. P ((xs @ [x]) ! j)) [0..<length xs] = filter (\<lambda>j. P (xs ! j)) [0..<length xs]"
    by (rule filter_cong) (simp_all add: nth_append)
  moreover have "map ((!) (xs @ [x])) (filter (\<lambda>j. P (xs ! j)) [0..<length xs]) =
                 map ((!) xs) (filter (\<lambda>j. P (xs ! j)) [0..<length xs])"
    by (rule map_cong) (simp_all add: nth_append)
  ultimately show ?case using snoc by simp
qed

lemma childIdx_bound: "j \<in> set (childIdx cs k i) \<Longrightarrow> j < k"
  by (simp add: childIdx_def)

lemma kidIdx_bound: "j \<in> set (kidIdx cs i) \<Longrightarrow> j < length cs"
  by (simp add: kidIdx_def childIdx_def)

lemma kids_kidIdx: "kids cs (cs ! i) = map ((!) cs) (kidIdx cs i)"
proof -
  have "filter (\<lambda>d. parentKey d = Some (id_c (cs ! i))) cs =
        map ((!) cs) (childIdx cs (length cs) i)"
    unfolding childIdx_def by (rule filter_conv_nth)
  then show ?thesis
    by (simp add: kids_def kidIdx_def sort_key_map)
qed

lemma rootsOf_rootIdx:
  "rootsOf cs = map ((!) cs) (sort_key (\<lambda>j. createdAt (cs ! j)) (rootIdx cs (length cs)))"
proof -
  have "filter (\<lambda>d. parentKey d = None) cs = map ((!) cs) (rootIdx cs (length cs))"
    unfolding rootIdx_def by (rule filter_conv_nth)
  then show ?thesis
    by (simp add: rootsOf_def sort_key_map)
qed

lemma wellLinked_linked: "wellLinked h0 cs (linked h0 cs (length cs))"
  by (simp add: wellLinked_def)

lemma wellLinked_fieldsOf:
  "wellLinked h0 cs h \<Longrightarrow> i < length cs \<Longrightarrow> fieldsOf (h ! (length h0 + i)) = cs ! i"
  by (auto simp: wellLinked_def sortedAt_def)

lemma wellLinked_createdAtOf:
  "wellLinked h0 cs h \<Longrightarrow> i < length cs \<Longrightarrow>
     createdAtOf h (length h0 + i) = createdAt (cs ! i)"
  by (simp add: createdAtOf_def wellLinked_fieldsOf)

lemma sort_node_refs:
  assumes wl: "wellLinked h0 cs h" and js: "\<forall>j \<in> set js. j < length cs"
  shows "sortRefsByCreatedAt h (map ((+) (length h0)) js) =
           Inr (map ((+) (length h0)) (sort_key (\<lambda>j. createdAt (cs ! j)) js))"
proof -
  have len: "length h = length h0 + length cs" using wl by (simp add: wellLinked_def)
  have valid: "list_all (\<lambda>a. a < length h) (map ((+) (length h0)) js)"
    using js by (simp add: list_all_iff len)
  have "sort_key (\<lambda>j. createdAtOf h (length h0 + j)) js = sort_key (\<lambda>j. createdAt (cs ! j)) js"
    by (rule sort_key_cong_set) (use js wl in \<open>simp add: wellLinked_createdAtOf\<close>)
  then show ?thesis
    using valid by (simp add: sortRefsByCreatedAt_def sort_key_map)
qed

lemma sort_key_idem: "sort_key f (sort_key f xs) = sort_key f xs"
  by (simp add: sort_key_id_if_sorted)

lemma wellLinked_node:
  assumes wl: "wellLinked h0 cs h" and i: "i < length cs"
  shows "\<exists>js. h ! (length h0 + i) = CommentWithReplies (cs ! i) (map ((+) (length h0)) js) \<and>
              (\<forall>j \<in> set js. j < length cs) \<and>
              sort_key (\<lambda>j. createdAt (cs ! j)) js = kidIdx cs i"
proof -
  from wl i have "h ! (length h0 + i) = linked h0 cs (length cs) ! (length h0 + i) \<or>
                  sortedAt h0 cs h i"
    by (simp add: wellLinked_def)
  then show ?thesis
  proof
    assume "h ! (length h0 + i) = linked h0 cs (length cs) ! (length h0 + i)"
    with i show ?thesis
      by (intro exI [of _ "childIdx cs (length cs) i"]) (auto simp: kidIdx_def dest: childIdx_bound)
  next
    assume "sortedAt h0 cs h i"
    then show ?thesis
      by (intro exI [of _ "kidIdx cs i"])
         (auto simp: sortedAt_def kidIdx_def sort_key_idem dest: childIdx_bound)
  qed
qed

lemma wellLinked_update:
  assumes wl: "wellLinked h0 cs h" and i: "i < length cs" and d: "distinct cs"
  shows "sortedMore h0 cs {cs ! i} h
           (h[length h0 + i :=
                CommentWithReplies (cs ! i) (map ((+) (length h0)) (kidIdx cs i))])"
proof -
  let ?h1 = "h[length h0 + i :=
                CommentWithReplies (cs ! i) (map ((+) (length h0)) (kidIdx cs i))]"
  have len: "length h = length h0 + length cs" using wl by (simp add: wellLinked_def)
  have at_i: "sortedAt h0 cs ?h1 i"
    using i len by (simp add: sortedAt_def)
  have other: "?h1 ! (length h0 + j) = h ! (length h0 + j)" if "j \<noteq> i" for j
    using that by simp
  have keep: "sortedAt h0 cs ?h1 j" if "sortedAt h0 cs h j" for j
    using that at_i other [of j] by (cases "j = i") (simp_all add: sortedAt_def)
  have wl1: "wellLinked h0 cs ?h1"
    unfolding wellLinked_def
  proof (intro conjI allI impI)
    show "length ?h1 = length h0 + length cs" using len by simp
    show "?h1 ! a = h0 ! a" if "a < length h0" for a
      using that wl by (simp add: wellLinked_def)
    show "?h1 ! (length h0 + j) = linked h0 cs (length cs) ! (length h0 + j) \<or>
          sortedAt h0 cs ?h1 j" if "j < length cs" for j
    proof (cases "j = i")
      case True
      with at_i show ?thesis by simp
    next
      case False
      from wl that have "h ! (length h0 + j) = linked h0 cs (length cs) ! (length h0 + j) \<or>
          sortedAt h0 cs h j" by (simp add: wellLinked_def)
      with other [OF False] keep [of j] show ?thesis by auto
    qed
  qed
  have new: "sortedAt h0 cs ?h1 j" if "j < length cs" "cs ! j \<in> {cs ! i}" for j
  proof -
    from that i d have "j = i" by (simp add: nth_eq_iff_index_eq)
    with at_i show ?thesis by simp
  qed
  from wl1 keep new show ?thesis unfolding sortedMore_def by blast
qed


lemma sortedMore_refl: "wellLinked h0 cs h \<Longrightarrow> sortedMore h0 cs {} h h"
  by (simp add: sortedMore_def)

lemma sortedMore_trans:
  "sortedMore h0 cs S1 h h1 \<Longrightarrow> sortedMore h0 cs S2 h1 h2 \<Longrightarrow>
     sortedMore h0 cs (S1 \<union> S2) h h2"
  unfolding sortedMore_def by blast

lemma sortedMore_wellLinked: "sortedMore h0 cs S h h' \<Longrightarrow> wellLinked h0 cs h'"
  by (simp add: sortedMore_def)

lemma forEach_from_sort:
  assumes sort: "\<And>i h t. i < length cs \<Longrightarrow> wellLinked h0 cs h \<Longrightarrow>
        specTree n cs (cs ! i) = Some t \<Longrightarrow>
        \<exists>h'. sortReplies n (length h0 + i) h = Inr h' \<and>
             sortedMore h0 cs (set (nodes t)) h h'"
    and js: "\<forall>j \<in> set js. j < length cs"
    and wl: "wellLinked h0 cs h"
    and ts: "those (map (specTree n cs) (map ((!) cs) js)) = Some ts"
  shows "\<exists>h'. forEachSortReplies n (map ((+) (length h0)) js) h = Inr h' \<and>
              sortedMore h0 cs (set (forestNodes ts)) h h'"
  using js wl ts
proof (induction js arbitrary: h ts)
  case Nil
  then show ?case by (simp add: forestNodes_def sortedMore_refl)
next
  case (Cons j js)
  from Cons.prems(3) obtain t ts' where
    t: "specTree n cs (cs ! j) = Some t"
    and ts': "those (map (specTree n cs) (map ((!) cs) js)) = Some ts'"
    and ts: "ts = t # ts'"
    by (auto split: option.splits)
  from Cons.prems(1) have j: "j < length cs" and js: "\<forall>j \<in> set js. j < length cs"
    by simp_all
  from sort [OF j Cons.prems(2) t] obtain h1 where
    h1: "sortReplies n (length h0 + j) h = Inr h1"
    and m1: "sortedMore h0 cs (set (nodes t)) h h1" by blast
  from Cons.IH [OF js sortedMore_wellLinked [OF m1] ts'] obtain h2 where
    h2: "forEachSortReplies n (map ((+) (length h0)) js) h1 = Inr h2"
    and m2: "sortedMore h0 cs (set (forestNodes ts')) h1 h2" by blast
  have "set (forestNodes ts) = set (nodes t) \<union> set (forestNodes ts')"
    by (simp add: ts forestNodes_def)
  with sortedMore_trans [OF m1 m2] h1 h2 show ?case by simp
qed

lemma sort_from_forEach:
  assumes each: "\<And>js h ts. \<forall>j \<in> set js. j < length cs \<Longrightarrow> wellLinked h0 cs h \<Longrightarrow>
        those (map (specTree n cs) (map ((!) cs) js)) = Some ts \<Longrightarrow>
        \<exists>h'. forEachSortReplies n (map ((+) (length h0)) js) h = Inr h' \<and>
             sortedMore h0 cs (set (forestNodes ts)) h h'"
    and d: "distinct cs"
    and i: "i < length cs"
    and wl: "wellLinked h0 cs h"
    and t: "specTree (Suc n) cs (cs ! i) = Some t"
  shows "\<exists>h'. sortReplies (Suc n) (length h0 + i) h = Inr h' \<and>
              sortedMore h0 cs (set (nodes t)) h h'"
proof -
  from t obtain ts where
    ts: "those (map (specTree n cs) (map ((!) cs) (kidIdx cs i))) = Some ts"
    and t': "t = Node (cs ! i) ts"
    by (auto simp: kids_kidIdx)
  from wellLinked_node [OF wl i] obtain js where
    node: "h ! (length h0 + i) = CommentWithReplies (cs ! i) (map ((+) (length h0)) js)"
    and js: "\<forall>j \<in> set js. j < length cs"
    and sorted: "sort_key (\<lambda>j. createdAt (cs ! j)) js = kidIdx cs i" by blast
  have len: "length h = length h0 + length cs" using wl by (simp add: wellLinked_def)
  let ?h1 = "h[length h0 + i :=
                CommentWithReplies (cs ! i) (map ((+) (length h0)) (kidIdx cs i))]"
  have m1: "sortedMore h0 cs {cs ! i} h ?h1"
    using wl i d by (rule wellLinked_update)
  have kid_bound: "\<forall>j \<in> set (kidIdx cs i). j < length cs"
    by (simp add: kidIdx_bound)
  from each [OF kid_bound sortedMore_wellLinked [OF m1] ts] obtain h2 where
    h2: "forEachSortReplies n (map ((+) (length h0)) (kidIdx cs i)) ?h1 = Inr h2"
    and m2: "sortedMore h0 cs (set (forestNodes ts)) ?h1 h2" by blast
  have "sortReplies (Suc n) (length h0 + i) h = Inr h2"
    using i len node sort_node_refs [OF wl js] sorted h2 by simp
  moreover have "set (nodes t) = {cs ! i} \<union> set (forestNodes ts)"
    by (simp add: t' forestNodes_def)
  ultimately show ?thesis using sortedMore_trans [OF m1 m2] by simp
qed

lemma sortReplies_spec:
  assumes d: "distinct cs"
  shows "i < length cs \<Longrightarrow> wellLinked h0 cs h \<Longrightarrow> specTree n cs (cs ! i) = Some t \<Longrightarrow>
         \<exists>h'. sortReplies n (length h0 + i) h = Inr h' \<and>
              sortedMore h0 cs (set (nodes t)) h h'"
proof (induction n arbitrary: i h t)
  case 0
  then show ?case by simp
next
  case (Suc n)
  show ?case
  proof (rule sort_from_forEach [OF _ d Suc.prems])
    fix js h ts
    assume "\<forall>j \<in> set js. j < length cs" "wellLinked h0 cs h"
      "those (map (specTree n cs) (map ((!) cs) js)) = Some ts"
    then show "\<exists>h'. forEachSortReplies n (map ((+) (length h0)) js) h = Inr h' \<and>
             sortedMore h0 cs (set (forestNodes ts)) h h'"
      by (rule forEach_from_sort [rotated]) (rule Suc.IH)
  qed
qed

lemma forEachSortReplies_spec:
  assumes d: "distinct cs" and js: "\<forall>j \<in> set js. j < length cs"
    and wl: "wellLinked h0 cs h"
    and ts: "those (map (specTree n cs) (map ((!) cs) js)) = Some ts"
  shows "\<exists>h'. forEachSortReplies n (map ((+) (length h0)) js) h = Inr h' \<and>
              sortedMore h0 cs (set (forestNodes ts)) h h'"
  using js wl ts by (rule forEach_from_sort [rotated]) (rule sortReplies_spec [OF d])


section \<open>buildCommentTree: the forest read back\<close>

lemma nodes_subtree: "t' \<in> set ts \<Longrightarrow> set (nodes t') \<subseteq> set (forestNodes ts)"
  by (auto simp: forestNodes_def)

lemma readTrees_from_spec:
  assumes read: "\<And>j t. j < length cs \<Longrightarrow> specTree n cs (cs ! j) = Some t \<Longrightarrow>
        \<forall>k < length cs. cs ! k \<in> set (nodes t) \<longrightarrow> sortedAt h0 cs h k \<Longrightarrow>
        readTree n h (length h0 + j) = Some t"
    and js: "\<forall>j \<in> set js. j < length cs"
    and ts: "those (map (specTree n cs) (map ((!) cs) js)) = Some ts"
    and sorted: "\<forall>k < length cs. cs ! k \<in> set (forestNodes ts) \<longrightarrow> sortedAt h0 cs h k"
  shows "those (map (readTree n h) (map ((+) (length h0)) js)) = Some ts"
proof -
  from ts have eq: "map (specTree n cs) (map ((!) cs) js) = map Some ts"
    by (simp add: those_eq_Some_iff)
  then have len: "length ts = length js" by (metis length_map)
  have "map (readTree n h) (map ((+) (length h0)) js) = map Some ts"
  proof (rule nth_equalityI)
    show "length (map (readTree n h) (map ((+) (length h0)) js)) = length (map Some ts)"
      using len by simp
  next
    fix k assume "k < length (map (readTree n h) (map ((+) (length h0)) js))"
    then have k: "k < length js" by simp
    from eq k len have spec: "specTree n cs (cs ! (js ! k)) = Some (ts ! k)"
      by (metis length_map nth_map)
    have "ts ! k \<in> set ts" using k len by simp
    then have "set (nodes (ts ! k)) \<subseteq> set (forestNodes ts)" by (rule nodes_subtree)
    with sorted have "\<forall>x < length cs. cs ! x \<in> set (nodes (ts ! k)) \<longrightarrow> sortedAt h0 cs h x"
      by blast
    with read [OF _ spec] js k have "readTree n h (length h0 + js ! k) = Some (ts ! k)"
      by simp
    with k len show "map (readTree n h) (map ((+) (length h0)) js) ! k = map Some ts ! k"
      by simp
  qed
  then show ?thesis by (simp add: those_eq_Some_iff)
qed

lemma readTree_spec:
  assumes len: "length h = length h0 + length cs"
  shows "j < length cs \<Longrightarrow> specTree n cs (cs ! j) = Some t \<Longrightarrow>
         \<forall>k < length cs. cs ! k \<in> set (nodes t) \<longrightarrow> sortedAt h0 cs h k \<Longrightarrow>
         readTree n h (length h0 + j) = Some t"
proof (induction n arbitrary: j t)
  case 0
  then show ?case by simp
next
  case (Suc n)
  from Suc.prems(2) obtain ts where
    ts: "those (map (specTree n cs) (map ((!) cs) (kidIdx cs j))) = Some ts"
    and t: "t = Node (cs ! j) ts"
    by (auto simp: kids_kidIdx)
  from Suc.prems(1,3) t have "sortedAt h0 cs h j" by simp
  then have node: "h ! (length h0 + j) =
      CommentWithReplies (cs ! j) (map ((+) (length h0)) (kidIdx cs j))"
    by (simp add: sortedAt_def)
  have sorted: "\<forall>k < length cs. cs ! k \<in> set (forestNodes ts) \<longrightarrow> sortedAt h0 cs h k"
    using Suc.prems(3) by (simp add: t forestNodes_def)
  have kid_bound: "\<forall>k \<in> set (kidIdx cs j). k < length cs"
    by (simp add: kidIdx_bound)
  have "those (map (readTree n h) (map ((+) (length h0)) (kidIdx cs j))) = Some ts"
    using Suc.IH kid_bound ts sorted by (rule readTrees_from_spec)
  then show ?case
    using Suc.prems(1) len node by (simp add: t)
qed

lemma readForest_spec:
  assumes len: "length h = length h0 + length cs"
    and js: "\<forall>j \<in> set js. j < length cs"
    and ts: "those (map (specTree n cs) (map ((!) cs) js)) = Some ts"
    and sorted: "\<forall>k < length cs. cs ! k \<in> set (forestNodes ts) \<longrightarrow> sortedAt h0 cs h k"
  shows "readForest n h (map ((+) (length h0)) js) = Some ts"
  unfolding readForest_def
  using readTree_spec [OF len] js ts sorted by (rule readTrees_from_spec)

section \<open>buildCommentTree: the construction and its specification\<close>

lemma rootIdx_bound: "j \<in> set (rootIdx cs k) \<Longrightarrow> j < k"
  by (simp add: rootIdx_def)

text \<open>
  For an input whose ids are pairwise distinct, with a call stack on which the recursion
  of the specification does not run out, \<^verbatim>\<open>buildCommentTree\<close> returns; it leaves the
  objects it was given as they were, and the forest one reads from its result is the one
  of the specification.
\<close>

lemma buildCommentTree_spec:
  assumes valid: "\<forall>a \<in> set as. a < length h0"
    and cs: "cs = map (\<lambda>a. fieldsOf (h0 ! a)) as"
    and ids: "distinct (map id_c cs)"
    and f: "specForest n cs = Some f"
  shows "\<exists>h roots. buildCommentTree n h0 as = Inr (h, roots) \<and>
           wellLinked h0 cs h \<and> readForest n h roots = Some f"
proof -
  let ?N = "length cs"
  let ?rs = "sort_key (\<lambda>j. createdAt (cs ! j)) (rootIdx cs ?N)"
  have d: "distinct cs" using ids by (simp add: distinct_map)
  have init: "initNodes as (h0, Map.empty) = Inr (linked h0 cs 0, nodeMap h0 cs)"
    using valid cs by (rule initNodes_nodeMap)
  have "linkNodes (drop 0 as) (nodeMap h0 cs) (linked h0 cs 0, linkedRoots h0 cs 0) =
          Inr (linked h0 cs ?N, linkedRoots h0 cs ?N)"
    using valid cs ids by (rule linkNodes_closed) simp
  then have link: "linkNodes as (nodeMap h0 cs) (linked h0 cs 0, []) =
          Inr (linked h0 cs ?N, linkedRoots h0 cs ?N)"
    by (simp add: linkedRoots_def rootIdx_def)
  have wl: "wellLinked h0 cs (linked h0 cs ?N)" by (rule wellLinked_linked)
  have rb: "\<forall>j \<in> set (rootIdx cs ?N). j < ?N" by (simp add: rootIdx_bound)
  have sortRoots: "sortRefsByCreatedAt (linked h0 cs ?N) (linkedRoots h0 cs ?N) =
          Inr (map ((+) (length h0)) ?rs)"
    unfolding linkedRoots_def using wl rb by (rule sort_node_refs)
  have rsb: "\<forall>j \<in> set ?rs. j < ?N" using rb by simp
  from f have ts: "those (map (specTree n cs) (map ((!) cs) ?rs)) = Some f"
    by (simp add: specForest_def rootsOf_rootIdx)
  from forEachSortReplies_spec [OF d rsb wl ts] obtain h where
    h: "forEachSortReplies n (map ((+) (length h0)) ?rs) (linked h0 cs ?N) = Inr h"
    and more: "sortedMore h0 cs (set (forestNodes f)) (linked h0 cs ?N) h" by blast
  from more have wlh: "wellLinked h0 cs h"
    and sorted: "\<forall>k < ?N. cs ! k \<in> set (forestNodes f) \<longrightarrow> sortedAt h0 cs h k"
    by (simp_all add: sortedMore_def)
  from wlh have len: "length h = length h0 + ?N" by (simp add: wellLinked_def)
  have "readForest n h (map ((+) (length h0)) ?rs) = Some f"
    using len rsb ts sorted by (rule readForest_spec)
  moreover have "buildCommentTree n h0 as = Inr (h, map ((+) (length h0)) ?rs)"
    by (simp add: buildCommentTree_def init link sortRoots h)
  ultimately show ?thesis using wlh by blast
qed

lemma commentForest_spec:
  assumes ids: "distinct (map id_c cs)" and f: "specForest n cs = Some f"
  shows "commentForest n cs = Inr f"
proof -
  have valid: "\<forall>a \<in> set [0..<length cs]. a < length (map Comment cs)" by simp
  have cs: "cs = map (\<lambda>a. fieldsOf (map Comment cs ! a)) [0..<length cs]"
    by (rule nth_equalityI) simp_all
  from buildCommentTree_spec [OF valid cs ids f] obtain h roots where
    "buildCommentTree n (map Comment cs) [0..<length cs] = Inr (h, roots)"
    "readForest n h roots = Some f" by blast
  then show ?thesis by (simp add: commentForest_def)
qed

section \<open>The specification: stack depth\<close>

lemma specTree_Suc_Some:
  "specTree (Suc n) cs c = Some t \<longleftrightarrow>
     (\<exists>ts. map (specTree n cs) (kids cs c) = map Some ts \<and> t = Node c ts)"
  by (auto simp: those_eq_Some_iff)

declare specTree.simps(2) [simp del]

lemma specForest_Some:
  "specForest n cs = Some f \<longleftrightarrow> map (specTree n cs) (rootsOf cs) = map Some f"
  by (simp add: specForest_def those_eq_Some_iff)

lemma map_Some_length: "map f ks = map Some ts \<Longrightarrow> length ts = length ks"
  by (drule map_eq_imp_length_eq) simp

lemma map_Some_nth:
  assumes "map f ks = map Some ts" and "i < length ks"
  shows "f (ks ! i) = Some (ts ! i)"
proof -
  from assms(1) have "map f ks ! i = map Some ts ! i" by simp
  with assms(2) map_Some_length [OF assms(1)] show ?thesis by simp
qed

lemma map_SomeI:
  "length ts = length ks \<Longrightarrow> (\<And>i. i < length ks \<Longrightarrow> f (ks ! i) = Some (ts ! i)) \<Longrightarrow>
     map f ks = map Some ts"
  by (rule nth_equalityI) simp_all

lemma specTree_mono_Suc: "specTree n cs c = Some t \<Longrightarrow> specTree (Suc n) cs c = Some t"
proof (induction n arbitrary: c t)
  case 0
  then show ?case by simp
next
  case (Suc n)
  from Suc.prems obtain ts where
    ts: "map (specTree n cs) (kids cs c) = map Some ts" and t: "t = Node c ts"
    unfolding specTree_Suc_Some by blast
  have "map (specTree (Suc n) cs) (kids cs c) = map Some ts"
  proof (rule map_SomeI)
    show "length ts = length (kids cs c)" using ts by (rule map_Some_length)
  next
    fix i assume "i < length (kids cs c)"
    with ts have "specTree n cs (kids cs c ! i) = Some (ts ! i)" by (rule map_Some_nth)
    then show "specTree (Suc n) cs (kids cs c ! i) = Some (ts ! i)" by (rule Suc.IH)
  qed
  then show ?case unfolding specTree_Suc_Some using t by blast
qed

lemma specTree_mono: "n \<le> m \<Longrightarrow> specTree n cs c = Some t \<Longrightarrow> specTree m cs c = Some t"
  by (induction m) (auto simp: le_Suc_eq intro: specTree_mono_Suc)

lemma specTrees_mono:
  assumes "n \<le> m" and "map (specTree n cs) ks = map Some ts"
  shows "map (specTree m cs) ks = map Some ts"
proof (rule map_SomeI)
  show "length ts = length ks" using assms(2) by (rule map_Some_length)
next
  fix i assume "i < length ks"
  with assms(2) have "specTree n cs (ks ! i) = Some (ts ! i)" by (rule map_Some_nth)
  with assms(1) show "specTree m cs (ks ! i) = Some (ts ! i)" by (rule specTree_mono)
qed

lemma specForest_mono: "n \<le> m \<Longrightarrow> specForest n cs = Some f \<Longrightarrow> specForest m cs = Some f"
  unfolding specForest_Some by (rule specTrees_mono)

lemma specTrees_uniform:
  "\<forall>k \<in> set ks. \<exists>n t. specTree n cs k = Some t \<Longrightarrow>
     \<exists>n ts. map (specTree n cs) ks = map Some ts"
proof (induction ks)
  case Nil
  have "map (specTree 0 cs) [] = map Some []" by simp
  then show ?case by blast
next
  case (Cons k ks)
  from Cons.prems have "\<exists>n t. specTree n cs k = Some t" by simp
  then obtain n1 t where t: "specTree n1 cs k = Some t" by blast
  from Cons.prems have "\<forall>k \<in> set ks. \<exists>n t. specTree n cs k = Some t" by simp
  then have "\<exists>n ts. map (specTree n cs) ks = map Some ts" by (rule Cons.IH)
  then obtain n2 ts where ts: "map (specTree n2 cs) ks = map Some ts" by blast
  have le: "n1 \<le> max n1 n2" "n2 \<le> max n1 n2" by simp_all
  have "specTree (max n1 n2) cs k = Some t"
    using le(1) t by (rule specTree_mono)
  moreover have "map (specTree (max n1 n2) cs) ks = map Some ts"
    using le(2) ts by (rule specTrees_mono)
  ultimately have "map (specTree (max n1 n2) cs) (k # ks) = map Some (t # ts)" by simp
  then show ?case by blast
qed

section \<open>The specification: the reply relation\<close>

lemma set_kids: "set (kids cs c) = {k \<in> set cs. parentKey k = Some (id_c c)}"
  by (auto simp: kids_def)

lemma set_rootsOf: "set (rootsOf cs) = {c \<in> set cs. parentKey c = None}"
  by (auto simp: rootsOf_def)

lemma distinct_kids: "distinct cs \<Longrightarrow> distinct (kids cs c)"
  by (simp add: kids_def)

lemma distinct_rootsOf: "distinct cs \<Longrightarrow> distinct (rootsOf cs)"
  by (simp add: rootsOf_def)

lemma kids_replyRel: "c \<in> set cs \<Longrightarrow> k \<in> set (kids cs c) \<longleftrightarrow> (k, c) \<in> replyRel cs"
  by (auto simp: set_kids replyRel_def)

lemma replyRel_in_cs: "(k, p) \<in> replyRel cs \<Longrightarrow> k \<in> set cs \<and> p \<in> set cs"
  by (simp add: replyRel_def)

lemma single_valued_replyRel:
  assumes "distinct (map id_c cs)"
  shows "single_valued (replyRel cs)"
proof (rule single_valuedI)
  fix k p q assume "(k, p) \<in> replyRel cs" "(k, q) \<in> replyRel cs"
  then have "p \<in> set cs" "q \<in> set cs" "id_c p = id_c q"
    by (auto simp: replyRel_def)
  with assms show "p = q" by (auto simp: distinct_map dest: inj_onD)
qed

lemma finite_replyRel: "finite (replyRel cs)"
proof (rule finite_subset)
  show "replyRel cs \<subseteq> set cs \<times> set cs" by (auto simp: replyRel_def)
qed simp

lemma rooted_in_cs: "rooted cs c \<Longrightarrow> c \<in> set cs"
  by (induction rule: rooted.induct) simp_all

lemma rooted_no_cycle:
  assumes ids: "distinct (map id_c cs)"
  shows "rooted cs c \<Longrightarrow> (c, c) \<notin> (replyRel cs)\<^sup>+"
proof (induction rule: rooted.induct)
  case (root c)
  show ?case
  proof
    assume "(c, c) \<in> (replyRel cs)\<^sup>+"
    then obtain z where "(c, z) \<in> replyRel cs" by (auto dest: tranclD)
    with root show False by (simp add: replyRel_def)
  qed
next
  case (reply p c)
  show ?case
  proof
    assume "(c, c) \<in> (replyRel cs)\<^sup>+"
    then obtain z where z: "(c, z) \<in> replyRel cs" "(z, c) \<in> (replyRel cs)\<^sup>*"
      by (auto dest: tranclD)
    from reply rooted_in_cs have cp: "(c, p) \<in> replyRel cs"
      by (simp add: replyRel_def)
    with z(1) single_valued_replyRel [OF ids] have "z = p"
      by (auto dest: single_valuedD)
    with z(2) cp have "(p, p) \<in> (replyRel cs)\<^sup>+" by (auto intro: rtrancl_into_trancl1)
    with reply.IH show False by simp
  qed
qed

lemma cycle_no_tree: "(c, c) \<in> (replyRel cs)\<^sup>+ \<Longrightarrow> specTree n cs c = None"
proof (induction n arbitrary: c)
  case 0
  then show ?case by simp
next
  case (Suc n)
  from Suc.prems obtain k where k: "(c, k) \<in> (replyRel cs)\<^sup>*" "(k, c) \<in> replyRel cs"
    by (auto dest: tranclD2)
  then have "(k, k) \<in> (replyRel cs)\<^sup>+" by (auto intro: rtrancl_into_trancl2)
  then have none: "specTree n cs k = None" by (rule Suc.IH)
  from k(2) have "k \<in> set (kids cs c)" by (auto simp: set_kids replyRel_def)
  with none have "None \<in> set (map (specTree n cs) (kids cs c))" by force
  then have "\<nexists>ts. map (specTree n cs) (kids cs c) = map Some ts" by force
  then show ?case
    using specTree_Suc_Some [of n cs c] by (cases "specTree (Suc n) cs c") auto
qed


section \<open>The specification: the recursion ends\<close>

lemma rooted_replies_wf:
  assumes ids: "distinct (map id_c cs)"
  shows "wf {(k, p). rooted cs p \<and> (k, p) \<in> replyRel cs}"
proof (rule finite_acyclic_wf)
  let ?R = "{(k, p). rooted cs p \<and> (k, p) \<in> replyRel cs}"
  have sub: "?R \<subseteq> replyRel cs" by auto
  show "finite ?R" using sub finite_replyRel by (rule finite_subset)
  show "acyclic ?R"
  proof (rule acyclicI, rule allI, rule notI)
    fix x assume x: "(x, x) \<in> ?R\<^sup>+"
    then obtain y where "(y, x) \<in> ?R" by (auto dest: tranclD2)
    then have "rooted cs x" by simp
    moreover from x have "(x, x) \<in> (replyRel cs)\<^sup>+"
      using trancl_mono [OF _ sub] by blast
    ultimately show False using rooted_no_cycle [OF ids] by blast
  qed
qed

lemma rooted_tree:
  assumes ids: "distinct (map id_c cs)"
  shows "rooted cs c \<Longrightarrow> \<exists>n t. specTree n cs c = Some t"
proof (induction c rule: wf_induct_rule [OF rooted_replies_wf [OF ids]])
  case (1 c)
  have "\<forall>k \<in> set (kids cs c). \<exists>n t. specTree n cs k = Some t"
  proof
    fix k assume k: "k \<in> set (kids cs c)"
    then have kc: "k \<in> set cs" "parentKey k = Some (id_c c)" by (simp_all add: set_kids)
    have rk: "rooted cs k" using 1(2) kc by (rule rooted.reply)
    have "(k, c) \<in> {(k, p). rooted cs p \<and> (k, p) \<in> replyRel cs}"
      using kc 1(2) rooted_in_cs [OF 1(2)] by (simp add: replyRel_def)
    then show "\<exists>n t. specTree n cs k = Some t" using rk by (rule 1(1))
  qed
  then obtain n ts where "map (specTree n cs) (kids cs c) = map Some ts"
    using specTrees_uniform by blast
  then have "specTree (Suc n) cs c = Some (Node c ts)"
    unfolding specTree_Suc_Some by blast
  then show ?case by blast
qed

lemma specForest_ends:
  assumes ids: "distinct (map id_c cs)"
  shows "\<exists>n f. specForest n cs = Some f"
proof -
  have "\<forall>k \<in> set (rootsOf cs). \<exists>n t. specTree n cs k = Some t"
  proof
    fix k assume "k \<in> set (rootsOf cs)"
    then have "rooted cs k" by (simp add: set_rootsOf rooted.root)
    then show "\<exists>n t. specTree n cs k = Some t" by (rule rooted_tree [OF ids])
  qed
  then show ?thesis unfolding specForest_Some by (rule specTrees_uniform)
qed

text \<open>With a stack that is deep enough, the call returns the forest of the
  specification.\<close>

lemma commentForest_returns:
  assumes ids: "distinct (map id_c cs)"
  shows "\<exists>n f. specForest n cs = Some f \<and> (\<forall>m \<ge> n. commentForest m cs = Inr f)"
proof -
  from specForest_ends [OF ids] obtain n f where f: "specForest n cs = Some f" by blast
  have "commentForest m cs = Inr f" if "n \<le> m" for m
    using ids specForest_mono [OF that f] by (rule commentForest_spec)
  with f show ?thesis by blast
qed

section \<open>The specification: the order of roots and replies\<close>

lemma specTree_rootOf: "specTree n cs c = Some t \<Longrightarrow> rootOf t = c"
  by (cases n) (auto simp: specTree_Suc_Some)

lemma specTrees_roots:
  assumes "map (specTree n cs) ks = map Some ts"
  shows "map rootOf ts = ks"
proof (rule nth_equalityI)
  show "length (map rootOf ts) = length ks" using map_Some_length [OF assms] by simp
next
  fix i assume "i < length (map rootOf ts)"
  then have i: "i < length ks" using map_Some_length [OF assms] by simp
  from map_Some_nth [OF assms i] have "rootOf (ts ! i) = ks ! i" by (rule specTree_rootOf)
  with i map_Some_length [OF assms] show "map rootOf ts ! i = ks ! i" by simp
qed

lemma specTrees_member:
  assumes "map (specTree n cs) ks = map Some ts" and "t \<in> set ts"
  shows "\<exists>k \<in> set ks. specTree n cs k = Some t"
proof -
  from assms(2) obtain i where i: "i < length ts" "t = ts ! i"
    by (auto simp: in_set_conv_nth)
  with map_Some_length [OF assms(1)] have "i < length ks" by simp
  with map_Some_nth [OF assms(1) this] i show ?thesis by auto
qed

lemma specTree_repliesSorted: "specTree n cs c = Some t \<Longrightarrow> repliesSorted t"
proof (induction n arbitrary: c t)
  case 0
  then show ?case by simp
next
  case (Suc n)
  from Suc.prems obtain ts where
    ts: "map (specTree n cs) (kids cs c) = map Some ts" and t: "t = Node c ts"
    unfolding specTree_Suc_Some by blast
  have "map (createdAt \<circ> rootOf) ts = map createdAt (kids cs c)"
    using specTrees_roots [OF ts] by (metis map_map)
  then have "sorted (map (createdAt \<circ> rootOf) ts)" by (simp add: kids_def)
  moreover have "list_all repliesSorted ts"
    unfolding list_all_iff
  proof
    fix t' assume "t' \<in> set ts"
    with specTrees_member [OF ts] obtain k where "specTree n cs k = Some t'" by blast
    then show "repliesSorted t'" by (rule Suc.IH)
  qed
  ultimately show ?case by (simp add: t)
qed

lemma specForest_sorted:
  assumes "specForest n cs = Some f"
  shows "sorted (map (createdAt \<circ> rootOf) f) \<and> list_all repliesSorted f"
proof -
  from assms have f: "map (specTree n cs) (rootsOf cs) = map Some f"
    by (simp add: specForest_Some)
  have "map (createdAt \<circ> rootOf) f = map createdAt (rootsOf cs)"
    using specTrees_roots [OF f] by (metis map_map)
  then have "sorted (map (createdAt \<circ> rootOf) f)" by (simp add: rootsOf_def)
  moreover have "list_all repliesSorted f"
    unfolding list_all_iff
  proof
    fix t assume "t \<in> set f"
    with specTrees_member [OF f] obtain k where "specTree n cs k = Some t" by blast
    then show "repliesSorted t" by (rule specTree_repliesSorted)
  qed
  ultimately show ?thesis by simp
qed


section \<open>The specification: the comments of the forest\<close>

lemma set_nodes: "set (nodes (Node c ts)) = insert c (set (forestNodes ts))"
  by (simp add: forestNodes_def)

lemma in_forestNodes: "d \<in> set (forestNodes ts) \<longleftrightarrow> (\<exists>t \<in> set ts. d \<in> set (nodes t))"
  by (auto simp: forestNodes_def)

lemma rootOf_in_nodes: "rootOf t \<in> set (nodes t)"
  by (cases t) simp

lemma nodes_rooted:
  "specTree n cs c = Some t \<Longrightarrow> rooted cs c \<Longrightarrow> d \<in> set (nodes t) \<Longrightarrow> rooted cs d"
proof (induction n arbitrary: c t)
  case 0
  then show ?case by simp
next
  case (Suc n)
  from Suc.prems(1) obtain ts where
    ts: "map (specTree n cs) (kids cs c) = map Some ts" and t: "t = Node c ts"
    unfolding specTree_Suc_Some by blast
  show ?case
  proof (cases "d = c")
    case True
    with Suc.prems(2) show ?thesis by simp
  next
    case False
    with Suc.prems(3) t obtain t' where t': "t' \<in> set ts" "d \<in> set (nodes t')"
      by (auto simp: set_nodes in_forestNodes)
    from specTrees_member [OF ts t'(1)] obtain k where
      k: "k \<in> set (kids cs c)" "specTree n cs k = Some t'" by blast
    from k(1) have "k \<in> set cs" "parentKey k = Some (id_c c)" by (simp_all add: set_kids)
    with Suc.prems(2) have "rooted cs k" by (rule rooted.reply)
    with k(2) show ?thesis using t'(2) by (rule Suc.IH)
  qed
qed

lemma nodes_closed:
  "specTree n cs r = Some t \<Longrightarrow> p \<in> set (nodes t) \<Longrightarrow> k \<in> set (kids cs p) \<Longrightarrow>
     k \<in> set (nodes t)"
proof (induction n arbitrary: r t)
  case 0
  then show ?case by simp
next
  case (Suc n)
  from Suc.prems(1) obtain ts where
    ts: "map (specTree n cs) (kids cs r) = map Some ts" and t: "t = Node r ts"
    unfolding specTree_Suc_Some by blast
  show ?case
  proof (cases "p = r")
    case True
    with Suc.prems(3) specTrees_roots [OF ts] have "k \<in> set (map rootOf ts)" by simp
    then obtain t' where "t' \<in> set ts" "k = rootOf t'" by auto
    with rootOf_in_nodes [of t'] show ?thesis
      by (auto simp: t set_nodes in_forestNodes)
  next
    case False
    with Suc.prems(2) t obtain t' where t': "t' \<in> set ts" "p \<in> set (nodes t')"
      by (auto simp: set_nodes in_forestNodes)
    from specTrees_member [OF ts t'(1)] obtain r' where "specTree n cs r' = Some t'" by blast
    from Suc.IH [OF this t'(2) Suc.prems(3)] t'(1) show ?thesis
      by (auto simp: t set_nodes in_forestNodes)
  qed
qed

lemma forest_nodes_rooted:
  assumes f: "specForest n cs = Some f"
  shows "set (forestNodes f) = {c. rooted cs c}"
proof (intro set_eqI iffI)
  from f have m: "map (specTree n cs) (rootsOf cs) = map Some f"
    by (simp add: specForest_Some)
  {
    fix d assume "d \<in> set (forestNodes f)"
    then obtain t where t: "t \<in> set f" "d \<in> set (nodes t)" by (auto simp: in_forestNodes)
    from specTrees_member [OF m t(1)] obtain r where
      r: "r \<in> set (rootsOf cs)" "specTree n cs r = Some t" by blast
    from r(1) have "rooted cs r" by (simp add: set_rootsOf rooted.root)
    with r(2) have "rooted cs d" using t(2) by (rule nodes_rooted)
    then show "d \<in> {c. rooted cs c}" by simp
  next
    fix d assume "d \<in> {c. rooted cs c}"
    then have "rooted cs d" by simp
    then show "d \<in> set (forestNodes f)"
    proof (induction rule: rooted.induct)
      case (root c)
      then have "c \<in> set (map rootOf f)"
        using specTrees_roots [OF m] by (simp add: set_rootsOf)
      then obtain t where "t \<in> set f" "c = rootOf t" by auto
      with rootOf_in_nodes [of t] show ?case by (auto simp: in_forestNodes)
    next
      case (reply p c)
      from reply.IH obtain t where t: "t \<in> set f" "p \<in> set (nodes t)"
        by (auto simp: in_forestNodes)
      from specTrees_member [OF m t(1)] obtain r where r: "specTree n cs r = Some t" by blast
      from reply.hyps have "c \<in> set (kids cs p)" by (simp add: set_kids)
      from nodes_closed [OF r t(2) this] t(1) show ?case by (auto simp: in_forestNodes)
    qed
  }
qed

lemma nodes_descend:
  "specTree n cs c = Some t \<Longrightarrow> c \<in> set cs \<Longrightarrow> d \<in> set (nodes t) \<Longrightarrow>
     (d, c) \<in> (replyRel cs)\<^sup>*"
proof (induction n arbitrary: c t)
  case 0
  then show ?case by simp
next
  case (Suc n)
  from Suc.prems(1) obtain ts where
    ts: "map (specTree n cs) (kids cs c) = map Some ts" and t: "t = Node c ts"
    unfolding specTree_Suc_Some by blast
  show ?case
  proof (cases "d = c")
    case True
    then show ?thesis by simp
  next
    case False
    with Suc.prems(3) t obtain t' where t': "t' \<in> set ts" "d \<in> set (nodes t')"
      by (auto simp: set_nodes in_forestNodes)
    from specTrees_member [OF ts t'(1)] obtain k where
      k: "k \<in> set (kids cs c)" "specTree n cs k = Some t'" by blast
    from k(1) Suc.prems(2) have kc: "(k, c) \<in> replyRel cs" by (simp add: kids_replyRel)
    then have "k \<in> set cs" by (simp add: replyRel_def)
    from Suc.IH [OF k(2) this t'(2)] kc show ?thesis by (rule rtrancl_into_rtrancl)
  qed
qed

lemma hd_nodes: "hd (nodes t) = rootOf t"
  by (cases t) simp

lemma distinct_forestNodes:
  assumes roots: "distinct (map rootOf ts)"
    and each: "\<And>t. t \<in> set ts \<Longrightarrow> distinct (nodes t)"
    and apart: "\<And>t t'. t \<in> set ts \<Longrightarrow> t' \<in> set ts \<Longrightarrow> rootOf t \<noteq> rootOf t' \<Longrightarrow>
               set (nodes t) \<inter> set (nodes t') = {}"
  shows "distinct (forestNodes ts)"
  unfolding forestNodes_def
proof (rule distinct_concat)
  from roots have dts: "distinct ts" and inj: "inj_on rootOf (set ts)"
    by (simp_all add: distinct_map)
  have "inj_on nodes (set ts)"
  proof (rule inj_onI)
    fix a b assume ab: "a \<in> set ts" "b \<in> set ts" "nodes a = nodes b"
    then have "hd (nodes a) = hd (nodes b)" by simp
    then have "rootOf a = rootOf b" by (simp only: hd_nodes)
    with inj ab show "a = b" by (auto dest: inj_onD)
  qed
  with dts show "distinct (map nodes ts)" by (simp add: distinct_map)
next
  fix ys assume "ys \<in> set (map nodes ts)"
  then show "distinct ys" using each by auto
next
  fix ys zs assume yz: "ys \<in> set (map nodes ts)" "zs \<in> set (map nodes ts)" "ys \<noteq> zs"
  then obtain a b where ab: "a \<in> set ts" "ys = nodes a" "b \<in> set ts" "zs = nodes b"
    by auto
  from roots have "inj_on rootOf (set ts)" by (simp add: distinct_map)
  with ab yz(3) have "rootOf a \<noteq> rootOf b" by (auto dest: inj_onD)
  with apart ab show "set ys \<inter> set zs = {}" by simp
qed

lemma common_descendant:
  assumes sv: "single_valued R" and dk: "(d, k) \<in> R\<^sup>*" and dk': "(d, k') \<in> R\<^sup>*"
    and ne: "k \<noteq> k'"
  shows "(\<exists>z. (k, z) \<in> R \<and> (z, k') \<in> R\<^sup>*) \<or> (\<exists>z. (k', z) \<in> R \<and> (z, k) \<in> R\<^sup>*)"
proof -
  from single_valued_confluent [OF sv dk dk'] have "(k, k') \<in> R\<^sup>* \<or> (k', k) \<in> R\<^sup>*" .
  with ne have "(k, k') \<in> R\<^sup>+ \<or> (k', k) \<in> R\<^sup>+" by (auto simp: rtrancl_eq_or_trancl)
  then show ?thesis by (auto dest: tranclD)
qed

lemma nodes_distinct:
  assumes ids: "distinct (map id_c cs)"
  shows "specTree n cs c = Some t \<Longrightarrow> c \<in> set cs \<Longrightarrow> distinct (nodes t)"
proof (induction n arbitrary: c t)
  case 0
  then show ?case by simp
next
  case (Suc n)
  let ?R = "replyRel cs"
  from Suc.prems(1) obtain ts where
    ts: "map (specTree n cs) (kids cs c) = map Some ts" and t: "t = Node c ts"
    unfolding specTree_Suc_Some by blast
  have d: "distinct cs" using ids by (simp add: distinct_map)
  have sv: "single_valued ?R" using ids by (rule single_valued_replyRel)
  have nocycle: "(c, c) \<notin> ?R\<^sup>+"
    using cycle_no_tree [of c cs "Suc n"] Suc.prems(1) by auto
  have sub: "\<exists>k. (k, c) \<in> ?R \<and> specTree n cs k = Some t' \<and> rootOf t' = k"
    if "t' \<in> set ts" for t'
  proof -
    from specTrees_member [OF ts that] obtain k where
      k: "k \<in> set (kids cs c)" "specTree n cs k = Some t'" by blast
    with Suc.prems(2) specTree_rootOf [OF k(2)] show ?thesis
      by (auto simp: kids_replyRel)
  qed
  have notc: "c \<notin> set (forestNodes ts)"
  proof
    assume "c \<in> set (forestNodes ts)"
    then obtain t' where t': "t' \<in> set ts" "c \<in> set (nodes t')"
      by (auto simp: in_forestNodes)
    from sub [OF t'(1)] obtain k where k: "(k, c) \<in> ?R" "specTree n cs k = Some t'" by blast
    from k(1) have "k \<in> set cs" by (simp add: replyRel_def)
    from nodes_descend [OF k(2) this t'(2)] k(1) have "(c, c) \<in> ?R\<^sup>+"
      by (rule rtrancl_into_trancl1)
    with nocycle show False by simp
  qed
  have "distinct (forestNodes ts)"
  proof (rule distinct_forestNodes)
    show "distinct (map rootOf ts)"
      using specTrees_roots [OF ts] d by (simp add: distinct_kids)
  next
    fix t' assume "t' \<in> set ts"
    from sub [OF this] obtain k where k: "(k, c) \<in> ?R" "specTree n cs k = Some t'" by blast
    from k(1) have "k \<in> set cs" by (simp add: replyRel_def)
    with k(2) show "distinct (nodes t')" by (rule Suc.IH)
  next
    fix t1 t2 assume t12: "t1 \<in> set ts" "t2 \<in> set ts" "rootOf t1 \<noteq> rootOf t2"
    from sub [OF t12(1)] obtain k1 where
      k1: "(k1, c) \<in> ?R" "specTree n cs k1 = Some t1" "rootOf t1 = k1" by blast
    from sub [OF t12(2)] obtain k2 where
      k2: "(k2, c) \<in> ?R" "specTree n cs k2 = Some t2" "rootOf t2 = k2" by blast
    from k1(1) k2(1) have in_cs: "k1 \<in> set cs" "k2 \<in> set cs" by (simp_all add: replyRel_def)
    show "set (nodes t1) \<inter> set (nodes t2) = {}"
    proof (rule ccontr)
      assume "set (nodes t1) \<inter> set (nodes t2) \<noteq> {}"
      then obtain x where x: "x \<in> set (nodes t1)" "x \<in> set (nodes t2)" by auto
      have x1: "(x, k1) \<in> ?R\<^sup>*" using k1(2) in_cs(1) x(1) by (rule nodes_descend)
      have x2: "(x, k2) \<in> ?R\<^sup>*" using k2(2) in_cs(2) x(2) by (rule nodes_descend)
      from t12(3) k1(3) k2(3) have "k1 \<noteq> k2" by simp
      from common_descendant [OF sv x1 x2 this] show False
      proof (elim disjE exE conjE)
        fix z assume z: "(k1, z) \<in> ?R" "(z, k2) \<in> ?R\<^sup>*"
        from sv z(1) k1(1) have "z = c" by (auto dest: single_valuedD)
        with z(2) k2(1) have "(c, c) \<in> ?R\<^sup>+" by (auto intro: rtrancl_into_trancl1)
        with nocycle show False by simp
      next
        fix z assume z: "(k2, z) \<in> ?R" "(z, k1) \<in> ?R\<^sup>*"
        from sv z(1) k2(1) have "z = c" by (auto dest: single_valuedD)
        with z(2) k1(1) have "(c, c) \<in> ?R\<^sup>+" by (auto intro: rtrancl_into_trancl1)
        with nocycle show False by simp
      qed
    qed
  qed
  with notc show ?case by (simp add: t forestNodes_def)
qed

lemma forest_distinct:
  assumes ids: "distinct (map id_c cs)" and f: "specForest n cs = Some f"
  shows "distinct (forestNodes f)"
proof (rule distinct_forestNodes)
  let ?R = "replyRel cs"
  from f have m: "map (specTree n cs) (rootsOf cs) = map Some f"
    by (simp add: specForest_Some)
  have d: "distinct cs" using ids by (simp add: distinct_map)
  have sv: "single_valued ?R" using ids by (rule single_valued_replyRel)
  have sub: "\<exists>r. r \<in> set cs \<and> parentKey r = None \<and> specTree n cs r = Some t \<and> rootOf t = r"
    if "t \<in> set f" for t
  proof -
    from specTrees_member [OF m that] obtain r where
      r: "r \<in> set (rootsOf cs)" "specTree n cs r = Some t" by blast
    with specTree_rootOf [OF r(2)] show ?thesis by (auto simp: set_rootsOf)
  qed
  show "distinct (map rootOf f)"
    using specTrees_roots [OF m] d by (simp add: distinct_rootsOf)
  show "distinct (nodes t)" if "t \<in> set f" for t
  proof -
    from sub [OF that] obtain r where "r \<in> set cs" "specTree n cs r = Some t" by blast
    then show ?thesis using nodes_distinct [OF ids] by blast
  qed
  show "set (nodes t1) \<inter> set (nodes t2) = {}"
    if t12: "t1 \<in> set f" "t2 \<in> set f" "rootOf t1 \<noteq> rootOf t2" for t1 t2
  proof (rule ccontr)
    assume "set (nodes t1) \<inter> set (nodes t2) \<noteq> {}"
    then obtain x where x: "x \<in> set (nodes t1)" "x \<in> set (nodes t2)" by auto
    from sub [OF t12(1)] obtain r1 where
      r1: "r1 \<in> set cs" "parentKey r1 = None" "specTree n cs r1 = Some t1" "rootOf t1 = r1"
      by blast
    from sub [OF t12(2)] obtain r2 where
      r2: "r2 \<in> set cs" "parentKey r2 = None" "specTree n cs r2 = Some t2" "rootOf t2 = r2"
      by blast
    have x1: "(x, r1) \<in> ?R\<^sup>*" using r1(3) r1(1) x(1) by (rule nodes_descend)
    have x2: "(x, r2) \<in> ?R\<^sup>*" using r2(3) r2(1) x(2) by (rule nodes_descend)
    from t12(3) r1(4) r2(4) have "r1 \<noteq> r2" by simp
    from common_descendant [OF sv x1 x2 this] r1(2) r2(2) show False
      by (auto simp: replyRel_def)
  qed
qed

section \<open>The specification: the order of the input\<close>

lemma rooted_mono: "rooted cs c \<Longrightarrow> set cs \<subseteq> set cs' \<Longrightarrow> rooted cs' c"
proof (induction rule: rooted.induct)
  case (root c)
  then show ?case by (auto intro: rooted.root)
next
  case (reply p c)
  from reply.IH [OF reply.prems] reply.hyps(2,3) reply.prems show ?case
    by (auto intro: rooted.reply)
qed

lemma rooted_set: "set cs' = set cs \<Longrightarrow> rooted cs' c = rooted cs c"
  by (auto intro: rooted_mono)

lemma kids_rooted:
  assumes "rooted cs c"
  shows "kids cs c =
         sort_key createdAt (filter (\<lambda>d. rooted cs d \<and> parentKey d = Some (id_c c)) cs)"
proof -
  have "filter (\<lambda>d. parentKey d = Some (id_c c)) cs =
        filter (\<lambda>d. rooted cs d \<and> parentKey d = Some (id_c c)) cs"
    by (rule filter_cong) (auto intro: rooted.reply [OF assms])
  then show ?thesis by (simp only: kids_def)
qed

lemma rootsOf_rooted:
  "rootsOf cs = sort_key createdAt (filter (\<lambda>d. rooted cs d \<and> parentKey d = None) cs)"
proof -
  have "filter (\<lambda>d. parentKey d = None) cs =
        filter (\<lambda>d. rooted cs d \<and> parentKey d = None) cs"
    by (rule filter_cong) (auto intro: rooted.root)
  then show ?thesis by (simp only: rootsOf_def)
qed

text \<open>When, for every parent key and every time, the rooted comments with that parent
  key created at that time come in the same order in \<open>cs\<close> and in \<open>cs'\<close>, the two inputs
  have the same forest; and conversely.\<close>

lemma ties_rootsOf:
  assumes perm: "mset cs' = mset cs"
    and ties: "\<forall>k t. filter (\<lambda>d. (rooted cs d \<and> parentKey d = k) \<and> createdAt d = t) cs' =
                     filter (\<lambda>d. (rooted cs d \<and> parentKey d = k) \<and> createdAt d = t) cs"
  shows "rootsOf cs' = rootsOf cs"
proof -
  have s: "set cs' = set cs" using perm by (rule mset_eq_setD)
  have "sort_key createdAt (filter (\<lambda>d. rooted cs d \<and> parentKey d = None) cs') =
        sort_key createdAt (filter (\<lambda>d. rooted cs d \<and> parentKey d = None) cs)"
    unfolding sort_filter_eq_iff [OF perm] using ties by blast
  then show ?thesis
    unfolding rootsOf_rooted [of cs] rootsOf_rooted [of cs'] by (simp only: rooted_set [OF s])
qed

lemma ties_kids:
  assumes perm: "mset cs' = mset cs"
    and ties: "\<forall>k t. filter (\<lambda>d. (rooted cs d \<and> parentKey d = k) \<and> createdAt d = t) cs' =
                     filter (\<lambda>d. (rooted cs d \<and> parentKey d = k) \<and> createdAt d = t) cs"
    and c: "rooted cs c"
  shows "kids cs' c = kids cs c"
proof -
  have s: "set cs' = set cs" using perm by (rule mset_eq_setD)
  have c': "rooted cs' c" using c by (simp only: rooted_set [OF s])
  have "sort_key createdAt (filter (\<lambda>d. rooted cs d \<and> parentKey d = Some (id_c c)) cs') =
        sort_key createdAt (filter (\<lambda>d. rooted cs d \<and> parentKey d = Some (id_c c)) cs)"
    unfolding sort_filter_eq_iff [OF perm] using ties by blast
  then show ?thesis
    unfolding kids_rooted [OF c] kids_rooted [OF c'] by (simp only: rooted_set [OF s])
qed

lemma ties_specTree:
  assumes perm: "mset cs' = mset cs"
    and ties: "\<forall>k t. filter (\<lambda>d. (rooted cs d \<and> parentKey d = k) \<and> createdAt d = t) cs' =
                     filter (\<lambda>d. (rooted cs d \<and> parentKey d = k) \<and> createdAt d = t) cs"
  shows "rooted cs c \<Longrightarrow> specTree n cs' c = specTree n cs c"
proof (induction n arbitrary: c)
  case 0
  show ?case by simp
next
  case (Suc n)
  have "map (specTree n cs') (kids cs c) = map (specTree n cs) (kids cs c)"
  proof (rule map_cong [OF refl])
    fix k assume "k \<in> set (kids cs c)"
    then have "k \<in> set cs" "parentKey k = Some (id_c c)" by (simp_all add: set_kids)
    with Suc.prems have "rooted cs k" by (rule rooted.reply)
    then show "specTree n cs' k = specTree n cs k" by (rule Suc.IH)
  qed
  then show ?case
    by (simp only: specTree.simps(2) ties_kids [OF perm ties Suc.prems])
qed

lemma ties_specForest:
  assumes perm: "mset cs' = mset cs"
    and ties: "\<forall>k t. filter (\<lambda>d. (rooted cs d \<and> parentKey d = k) \<and> createdAt d = t) cs' =
                     filter (\<lambda>d. (rooted cs d \<and> parentKey d = k) \<and> createdAt d = t) cs"
  shows "specForest n cs' = specForest n cs"
proof -
  have "map (specTree n cs') (rootsOf cs) = map (specTree n cs) (rootsOf cs)"
  proof (rule map_cong [OF refl])
    fix k assume "k \<in> set (rootsOf cs)"
    then have "rooted cs k" by (simp add: set_rootsOf rooted.root)
    then show "specTree n cs' k = specTree n cs k" by (rule ties_specTree [OF perm ties])
  qed
  then show ?thesis
    by (simp only: specForest_def ties_rootsOf [OF perm ties])
qed

lemma specTree_kidsAre: "specTree n cs c = Some t \<Longrightarrow> kidsAre cs t"
proof (induction n arbitrary: c t)
  case 0
  then show ?case by simp
next
  case (Suc n)
  from Suc.prems obtain ts where
    ts: "map (specTree n cs) (kids cs c) = map Some ts" and t: "t = Node c ts"
    unfolding specTree_Suc_Some by blast
  have "list_all (kidsAre cs) ts"
    unfolding list_all_iff
  proof
    fix t' assume "t' \<in> set ts"
    with specTrees_member [OF ts] obtain k where "specTree n cs k = Some t'" by blast
    then show "kidsAre cs t'" by (rule Suc.IH)
  qed
  with specTrees_roots [OF ts] show ?case by (simp add: t)
qed

lemma specTree_tiesKept: "specTree n cs c = Some t \<Longrightarrow> tiesKept cs t"
proof (induction n arbitrary: c t)
  case 0
  then show ?case by simp
next
  case (Suc n)
  from Suc.prems obtain ts where
    ts: "map (specTree n cs) (kids cs c) = map Some ts" and t: "t = Node c ts"
    unfolding specTree_Suc_Some by blast
  have "list_all (tiesKept cs) ts"
    unfolding list_all_iff
  proof
    fix t' assume "t' \<in> set ts"
    with specTrees_member [OF ts] obtain k where "specTree n cs k = Some t'" by blast
    then show "tiesKept cs t'" by (rule Suc.IH)
  qed
  moreover have "filter (\<lambda>e. createdAt e = u) (map rootOf ts) =
      filter (\<lambda>e. parentKey e = Some (id_c c) \<and> createdAt e = u) cs" for u
    unfolding specTrees_roots [OF ts] kids_def by (rule sort_filter_ties)
  ultimately show ?case by (simp add: t)
qed

lemma kidsAre_kids:
  "kidsAre cs t \<Longrightarrow> kidsAre cs' t \<Longrightarrow> p \<in> set (nodes t) \<Longrightarrow> kids cs' p = kids cs p"
proof (induction t)
  case (Node c ts)
  show ?case
  proof (cases "p = c")
    case True
    with Node.prems(1,2) show ?thesis by simp
  next
    case False
    with Node.prems(3) obtain t' where t': "t' \<in> set ts" "p \<in> set (nodes t')"
      by (auto simp: set_nodes in_forestNodes)
    from Node.prems(1,2) t'(1) have "kidsAre cs t'" "kidsAre cs' t'"
      by (simp_all add: list_all_iff)
    with t' show ?thesis by (intro Node.IH)
  qed
qed

lemma specForest_kidsAre:
  assumes "specForest n cs = Some f" and "t \<in> set f"
  shows "kidsAre cs t"
proof -
  from assms(1) have "map (specTree n cs) (rootsOf cs) = map Some f"
    by (simp add: specForest_Some)
  from specTrees_member [OF this assms(2)] obtain k where "specTree n cs k = Some t" by blast
  then show ?thesis by (rule specTree_kidsAre)
qed

lemma specForest_tiesKept:
  assumes "specForest n cs = Some f"
  shows "list_all (tiesKept cs) f"
  unfolding list_all_iff
proof
  fix t assume t: "t \<in> set f"
  from assms have "map (specTree n cs) (rootsOf cs) = map Some f"
    by (simp add: specForest_Some)
  from specTrees_member [OF this t] obtain k where "specTree n cs k = Some t" by blast
  then show "tiesKept cs t" by (rule specTree_tiesKept)
qed

lemma specForest_roots: "specForest n cs = Some f \<Longrightarrow> map rootOf f = rootsOf cs"
  unfolding specForest_Some by (rule specTrees_roots)

lemma same_forest_ties:
  assumes perm: "mset cs' = mset cs"
    and f: "specForest n cs = Some f" and f': "specForest n' cs' = Some f"
  shows "filter (\<lambda>d. (rooted cs d \<and> parentKey d = k) \<and> createdAt d = t) cs' =
         filter (\<lambda>d. (rooted cs d \<and> parentKey d = k) \<and> createdAt d = t) cs"
proof -
  have s: "set cs' = set cs" using perm by (rule mset_eq_setD)
  show ?thesis
  proof (cases k)
    case None
    have "rootsOf cs' = rootsOf cs"
      using specForest_roots [OF f] specForest_roots [OF f'] by simp
    then have "sort_key createdAt (filter (\<lambda>d. rooted cs d \<and> parentKey d = None) cs') =
               sort_key createdAt (filter (\<lambda>d. rooted cs d \<and> parentKey d = None) cs)"
      unfolding rootsOf_rooted [of cs] rootsOf_rooted [of cs'] by (simp only: rooted_set [OF s])
    then show ?thesis
      unfolding sort_filter_eq_iff [OF perm] None by blast
  next
    case (Some pid)
    show ?thesis
    proof (cases "\<exists>p. rooted cs p \<and> id_c p = pid")
      case True
      then obtain p where p: "rooted cs p" "id_c p = pid" by blast
      from p(1) have p': "rooted cs' p" by (simp only: rooted_set [OF s])
      from p(1) have "p \<in> set (forestNodes f)" by (simp add: forest_nodes_rooted [OF f])
      then obtain tr where tr: "tr \<in> set f" "p \<in> set (nodes tr)"
        by (auto simp: in_forestNodes)
      have "kidsAre cs tr" using f tr(1) by (rule specForest_kidsAre)
      moreover have "kidsAre cs' tr" using f' tr(1) by (rule specForest_kidsAre)
      ultimately have "kids cs' p = kids cs p" using tr(2) by (rule kidsAre_kids)
      then have "sort_key createdAt (filter (\<lambda>d. rooted cs d \<and> parentKey d = Some (id_c p)) cs') =
                 sort_key createdAt (filter (\<lambda>d. rooted cs d \<and> parentKey d = Some (id_c p)) cs)"
        unfolding kids_rooted [OF p(1)] kids_rooted [OF p'] by (simp only: rooted_set [OF s])
      then show ?thesis
        unfolding sort_filter_eq_iff [OF perm] Some p(2) by blast
    next
      case False
      have no: "\<not> (rooted cs d \<and> parentKey d = Some pid)" for d
      proof
        assume d: "rooted cs d \<and> parentKey d = Some pid"
        then have "rooted cs d" ..
        then show False
        proof (cases rule: rooted.cases)
          case root
          with d show False by simp
        next
          case (reply q)
          with d False show False by auto
        qed
      qed
      show ?thesis unfolding Some by (simp add: no)
    qed
  qed
qed

lemma tiedAlike_ties:
  assumes ns: "set ns = {c. rooted cs c}" and perm: "mset cs' = mset cs"
  shows "tiedAlike ns cs cs' \<longleftrightarrow>
         (\<forall>k t. filter (\<lambda>d. (rooted cs d \<and> parentKey d = k) \<and> createdAt d = t) cs' =
                filter (\<lambda>d. (rooted cs d \<and> parentKey d = k) \<and> createdAt d = t) cs)"
proof
  assume ties: "\<forall>k t. filter (\<lambda>d. (rooted cs d \<and> parentKey d = k) \<and> createdAt d = t) cs' =
                     filter (\<lambda>d. (rooted cs d \<and> parentKey d = k) \<and> createdAt d = t) cs"
  show "tiedAlike ns cs cs'"
    unfolding tiedAlike_def
  proof
    fix c assume "c \<in> set ns"
    from ties have "filter (\<lambda>d. (rooted cs d \<and> parentKey d = parentKey c) \<and> createdAt d = createdAt c) cs' =
          filter (\<lambda>d. (rooted cs d \<and> parentKey d = parentKey c) \<and> createdAt d = createdAt c) cs"
      by blast
    then show "filter (\<lambda>d. d \<in> set ns \<and> parentKey d = parentKey c \<and> createdAt d = createdAt c) cs' =
          filter (\<lambda>d. d \<in> set ns \<and> parentKey d = parentKey c \<and> createdAt d = createdAt c) cs"
      by (simp add: ns conj_assoc)
  qed
next
  assume alike: "tiedAlike ns cs cs'"
  show "\<forall>k t. filter (\<lambda>d. (rooted cs d \<and> parentKey d = k) \<and> createdAt d = t) cs' =
              filter (\<lambda>d. (rooted cs d \<and> parentKey d = k) \<and> createdAt d = t) cs"
  proof (intro allI)
    fix k t
    show "filter (\<lambda>d. (rooted cs d \<and> parentKey d = k) \<and> createdAt d = t) cs' =
          filter (\<lambda>d. (rooted cs d \<and> parentKey d = k) \<and> createdAt d = t) cs"
    proof (cases "\<exists>c. rooted cs c \<and> parentKey c = k \<and> createdAt c = t")
      case True
      then obtain c where c: "rooted cs c" "parentKey c = k" "createdAt c = t" by blast
      then have "c \<in> set ns" by (simp add: ns)
      with alike have
        "filter (\<lambda>d. d \<in> set ns \<and> parentKey d = parentKey c \<and> createdAt d = createdAt c) cs' =
         filter (\<lambda>d. d \<in> set ns \<and> parentKey d = parentKey c \<and> createdAt d = createdAt c) cs"
        unfolding tiedAlike_def by blast
      then show ?thesis by (simp add: ns c(2,3) conj_assoc)
    next
      case False
      then have "\<not> ((rooted cs d \<and> parentKey d = k) \<and> createdAt d = t)" for d by blast
      then show ?thesis by simp
    qed
  qed
qed

lemma filter_eq_single:
  "distinct xs \<Longrightarrow> x \<in> set xs \<Longrightarrow> filter (\<lambda>y. y = x) xs = [x]"
proof (induction xs)
  case Nil
  then show ?case by simp
next
  case (Cons a xs)
  show ?case
  proof (cases "a = x")
    case True
    with Cons.prems have "x \<notin> set xs" by simp
    then have "filter (\<lambda>y. y = x) xs = []" by (auto simp: filter_empty_conv)
    with True show ?thesis by simp
  next
    case False
    with Cons show ?thesis by simp
  qed
qed

lemma untied_tiedAlike:
  assumes d: "distinct cs" and perm: "mset cs' = mset cs" and sub: "set ns \<subseteq> set cs"
    and untied: "\<forall>c \<in> set ns. \<forall>d \<in> set ns.
                   parentKey c = parentKey d \<and> createdAt c = createdAt d \<longrightarrow> c = d"
  shows "tiedAlike ns cs cs'"
  unfolding tiedAlike_def
proof
  fix c assume c: "c \<in> set ns"
  have d': "distinct cs'" using d perm by (metis mset_eq_imp_distinct_iff)
  have s: "set cs' = set cs" using perm by (rule mset_eq_setD)
  have one: "filter (\<lambda>d. d \<in> set ns \<and> parentKey d = parentKey c \<and> createdAt d = createdAt c) xs =
             filter (\<lambda>y. y = c) xs" for xs
    by (rule filter_cong) (use c untied in auto)
  have "filter (\<lambda>y. y = c) cs' = [c]" using d' c sub s by (intro filter_eq_single) auto
  moreover have "filter (\<lambda>y. y = c) cs = [c]" using d c sub by (intro filter_eq_single) auto
  ultimately show
    "filter (\<lambda>d. d \<in> set ns \<and> parentKey d = parentKey c \<and> createdAt d = createdAt c) cs' =
     filter (\<lambda>d. d \<in> set ns \<and> parentKey d = parentKey c \<and> createdAt d = createdAt c) cs"
    by (simp only: one)
qed

lemma kidsAre_replyPairs:
  "kidsAre cs t \<Longrightarrow> replyPairs t = {(k, p). p \<in> set (nodes t) \<and> k \<in> set (kids cs p)}"
proof (induction t)
  case (Node c ts)
  from Node.prems have roots: "rootOf ` set ts = set (kids cs c)"
    by (metis kidsAre.simps set_map)
  have sub: "replyPairs t' = {(k, p). p \<in> set (nodes t') \<and> k \<in> set (kids cs p)}"
    if "t' \<in> set ts" for t'
    using that Node.prems by (intro Node.IH) (simp_all add: list_all_iff)
  have "replyPairs (Node c ts) =
        {(k, p). p = c \<and> k \<in> set (kids cs p)} \<union>
        (\<Union>t' \<in> set ts. {(k, p). p \<in> set (nodes t') \<and> k \<in> set (kids cs p)})"
    using roots sub by auto
  also have "\<dots> = {(k, p). p \<in> set (nodes (Node c ts)) \<and> k \<in> set (kids cs p)}"
    by (auto simp: set_nodes in_forestNodes)
  finally show ?case .
qed

lemma specForest_pairs:
  assumes f: "specForest n cs = Some f"
  shows "forestPairs f = {(k, p). rooted cs p \<and> k \<in> set cs \<and> parentKey k = Some (id_c p)}"
proof -
  have "forestPairs f = (\<Union>t \<in> set f. {(k, p). p \<in> set (nodes t) \<and> k \<in> set (kids cs p)})"
    unfolding forestPairs_def
    using kidsAre_replyPairs [OF specForest_kidsAre [OF f]] by simp
  also have "\<dots> = {(k, p). p \<in> set (forestNodes f) \<and> k \<in> set (kids cs p)}"
    by (auto simp: in_forestNodes)
  also have "\<dots> = {(k, p). rooted cs p \<and> k \<in> set cs \<and> parentKey k = Some (id_c p)}"
    by (auto simp: forest_nodes_rooted [OF f] set_kids)
  finally show ?thesis .
qed

section \<open>buildCommentTree: the claims\<close>

lemma exThread_ids: "distinct (map id_c exThread)"
  by (simp add: exThread_def exComment_def)

text \<open>Why the ids are taken to be pairwise distinct: of two comments with the same id,
  the one that comes later in the input takes the entry of the map, and its object stands
  for both.\<close>

lemma duplicate_ids_order:
  "commentForest 1 [exComment ''c1'' None ''To Do'' 5000, exComment ''c1'' None ''To Do'' 5001] =
     Inr [Node (exComment ''c1'' None ''To Do'' 5001) [],
          Node (exComment ''c1'' None ''To Do'' 5001) []] \<and>
   commentForest 1 [exComment ''c1'' None ''To Do'' 5001, exComment ''c1'' None ''To Do'' 5000] =
     Inr [Node (exComment ''c1'' None ''To Do'' 5000) [],
          Node (exComment ''c1'' None ''To Do'' 5000) []]"
  by code_simp

text \<open>
  Claim C1 says that a comment whose parent id matches no comment of the input becomes a
  root. As stated it fails: the comment below is the whole input, and the forest is
  empty.
\<close>

theorem dangling_parent_not_root:
  "commentForest 1 [exComment ''c4'' (Some ''gone'') ''To Do'' 5030] = Inr []"
  by code_simp

text \<open>
  Claim C1, amended. For an input with pairwise distinct ids, a comment with a parent
  id that is not empty and is the id of no comment of the input is no node of the forest
  that \<^verbatim>\<open>buildCommentTree\<close> returns, neither a root nor a reply; the call raises no
  error, on every call stack that is deep enough.
\<close>

theorem dangling_parent_omitted:
  assumes "distinct (map id_c cs)" and "c \<in> set cs"
    and "parentKey c = Some pid" and "pid \<notin> id_c ` set cs"
  shows "\<exists>n. \<forall>m \<ge> n. \<exists>f. commentForest m cs = Inr f \<and> c \<notin> set (forestNodes f)"
proof -
  from commentForest_returns [OF assms(1)] obtain n f where
    f: "specForest n cs = Some f" and run: "\<forall>m \<ge> n. commentForest m cs = Inr f" by blast
  have "\<not> rooted cs c"
  proof
    assume "rooted cs c"
    then show False
    proof (cases rule: rooted.cases)
      case root
      with assms(3) show False by simp
    next
      case (reply p)
      from reply(1) have "p \<in> set cs" by (rule rooted_in_cs)
      with reply(3) assms(3,4) show False by auto
    qed
  qed
  then have "c \<notin> set (forestNodes f)" by (simp add: forest_nodes_rooted [OF f])
  with run show ?thesis by blast
qed

theorem dangling_parent_omitted_witness:
  "distinct (map id_c exThread) \<and>
   exComment ''c4'' (Some ''gone'') ''To Do'' 5030 \<in> set exThread \<and>
   parentKey (exComment ''c4'' (Some ''gone'') ''To Do'' 5030) = Some ''gone'' \<and>
   ''gone'' \<notin> id_c ` set exThread \<and>
   (\<exists>n f. commentForest n exThread = Inr f \<and>
          exComment ''c4'' (Some ''gone'') ''To Do'' 5030 \<notin> set (forestNodes f))"
proof -
  have a: "exComment ''c4'' (Some ''gone'') ''To Do'' 5030 \<in> set exThread"
    by (simp add: exThread_def)
  have b: "parentKey (exComment ''c4'' (Some ''gone'') ''To Do'' 5030) = Some ''gone''"
    by (simp add: parentKey_def exComment_def)
  have c: "''gone'' \<notin> id_c ` set exThread"
    by (simp add: exThread_def exComment_def)
  from dangling_parent_omitted [OF exThread_ids a b c]
  have "\<exists>n f. commentForest n exThread = Inr f \<and>
          exComment ''c4'' (Some ''gone'') ''To Do'' 5030 \<notin> set (forestNodes f)"
    by blast
  with exThread_ids a b c show ?thesis by blast
qed

text \<open>
  Claim C2 says that the forest holds every comment of the input exactly once, also
  when a comment is its own parent. As stated it fails: the comment below is its own
  parent and the forest is empty.
\<close>

theorem self_parent_not_in_forest:
  "commentForest 1 [exComment ''c6'' (Some ''c6'') ''To Do'' 5040] = Inr []"
  by code_simp

text \<open>
  Claim C2, amended. For every input with pairwise distinct ids, also one with a comment
  that is its own parent or with a cycle of parents, \<^verbatim>\<open>buildCommentTree\<close> returns a
  forest (a finite tree structure, so that no node is its own ancestor) in which no
  comment occurs twice, and whose comments are exactly the comments of the input whose
  chain of parents ends in a comment of the input without parent. A comment that is its
  own parent, or lies on or below a cycle, is not in the forest.
\<close>

theorem forest_without_duplicates:
  assumes "distinct (map id_c cs)"
  shows "\<exists>n. \<forall>m \<ge> n. \<exists>f. commentForest m cs = Inr f \<and> distinct (forestNodes f) \<and>
                          distinct (map id_c (forestNodes f)) \<and>
                          set (forestNodes f) = {c. rooted cs c}"
proof -
  from commentForest_returns [OF assms] obtain n f where
    f: "specForest n cs = Some f" and run: "\<forall>m \<ge> n. commentForest m cs = Inr f" by blast
  have d: "distinct (forestNodes f)" using assms f by (rule forest_distinct)
  have r: "set (forestNodes f) = {c. rooted cs c}" using f by (rule forest_nodes_rooted)
  then have "set (forestNodes f) \<subseteq> set cs" by (auto dest: rooted_in_cs)
  moreover from assms have "inj_on id_c (set cs)" by (simp add: distinct_map)
  ultimately have "inj_on id_c (set (forestNodes f))" by (rule inj_on_subset [rotated])
  with d have "distinct (map id_c (forestNodes f))" by (simp add: distinct_map)
  with d r run show ?thesis by blast
qed

theorem forest_without_duplicates_witness:
  "distinct (map id_c exThread) \<and>
   (\<exists>n f. commentForest n exThread = Inr f \<and> distinct (forestNodes f) \<and>
          distinct (map id_c (forestNodes f)) \<and>
          set (forestNodes f) = {c. rooted exThread c})"
proof -
  from forest_without_duplicates [OF exThread_ids]
  have "\<exists>n f. commentForest n exThread = Inr f \<and> distinct (forestNodes f) \<and>
          distinct (map id_c (forestNodes f)) \<and>
          set (forestNodes f) = {c. rooted exThread c}"
    by blast
  with exThread_ids show ?thesis by blast
qed

text \<open>
  Claim C3 says that every permutation of the input gives the same forest. As stated it
  fails: two roots created at the same time come out in the order of the input.
\<close>

theorem permutation_ties:
  "commentForest 1 [exComment ''c1'' None ''To Do'' 5000, exComment ''c2'' None ''To Do'' 5000] =
     Inr [Node (exComment ''c1'' None ''To Do'' 5000) [],
          Node (exComment ''c2'' None ''To Do'' 5000) []] \<and>
   commentForest 1 [exComment ''c2'' None ''To Do'' 5000, exComment ''c1'' None ''To Do'' 5000] =
     Inr [Node (exComment ''c2'' None ''To Do'' 5000) [],
          Node (exComment ''c1'' None ''To Do'' 5000) []]"
  by code_simp

text \<open>
  Claim C3, amended. For an input with pairwise distinct ids and a permutation of it,
  \<^verbatim>\<open>buildCommentTree\<close> returns a forest for both, on every call stack that is deep
  enough. The two forests consist of comments of the input, have the same roots and the
  same pairs of reply and parent. They are the same forest, the order of the roots and
  of every replies list included, exactly when the comments of the forest that have the
  same parent and the same creation time come in the same order in both inputs; so they
  are the same when no two comments of the forest with the same parent are created at
  the same time. Among the roots and in every replies list, the comments created at the
  same time are in the order of the input.
\<close>

theorem forest_permutation:
  assumes "distinct (map id_c cs)" and "mset cs' = mset cs"
  shows "\<exists>n. \<forall>m \<ge> n. \<exists>f f'.
           commentForest m cs = Inr f \<and> commentForest m cs' = Inr f' \<and>
           set (forestNodes f) \<subseteq> set cs \<and>
           set (map rootOf f') = set (map rootOf f) \<and> forestPairs f' = forestPairs f \<and>
           (f' = f \<longleftrightarrow> tiedAlike (forestNodes f) cs cs') \<and>
           ((\<forall>c \<in> set (forestNodes f). \<forall>d \<in> set (forestNodes f).
                parentKey c = parentKey d \<and> createdAt c = createdAt d \<longrightarrow> c = d) \<longrightarrow> f' = f) \<and>
           (\<forall>d \<in> set cs.
              filter (\<lambda>e. createdAt e = createdAt d) (map rootOf f) =
              filter (\<lambda>e. parentKey e = None \<and> createdAt e = createdAt d) cs) \<and>
           list_all (tiesKept cs) f"
proof -
  have s: "set cs' = set cs" using assms(2) by (rule mset_eq_setD)
  have ids': "distinct (map id_c cs')"
    using assms by (metis mset_eq_imp_distinct_iff mset_map)
  have dcs: "distinct cs" using assms(1) by (simp add: distinct_map)
  from commentForest_returns [OF assms(1)] obtain n f where
    f: "specForest n cs = Some f" and run: "\<forall>m \<ge> n. commentForest m cs = Inr f" by blast
  from commentForest_returns [OF ids'] obtain n' f' where
    f': "specForest n' cs' = Some f'" and run': "\<forall>m \<ge> n'. commentForest m cs' = Inr f'" by blast
  have nodes: "set (forestNodes f) = {c. rooted cs c}" using f by (rule forest_nodes_rooted)
  then have sub: "set (forestNodes f) \<subseteq> set cs" by (auto dest: rooted_in_cs)
  have roots: "set (map rootOf f') = set (map rootOf f)"
    by (simp only: specForest_roots [OF f] specForest_roots [OF f'] set_rootsOf s)
  have pairs: "forestPairs f' = forestPairs f"
    by (simp only: specForest_pairs [OF f] specForest_pairs [OF f'] rooted_set [OF s] s)
  have onlyif: "f' = f" if alike: "tiedAlike (forestNodes f) cs cs'"
  proof -
    from alike have ties:
      "\<forall>k t. filter (\<lambda>d. (rooted cs d \<and> parentKey d = k) \<and> createdAt d = t) cs' =
             filter (\<lambda>d. (rooted cs d \<and> parentKey d = k) \<and> createdAt d = t) cs"
      unfolding tiedAlike_ties [OF nodes assms(2)] .
    have "specForest (max n n') cs = Some f" by (rule specForest_mono [OF _ f]) simp
    moreover have "specForest (max n n') cs' = Some f'"
      by (rule specForest_mono [OF _ f']) simp
    ultimately show ?thesis by (simp add: ties_specForest [OF assms(2) ties])
  qed
  have forth: "tiedAlike (forestNodes f) cs cs'" if same: "f' = f"
  proof -
    have "filter (\<lambda>d. (rooted cs d \<and> parentKey d = k) \<and> createdAt d = t) cs' =
          filter (\<lambda>d. (rooted cs d \<and> parentKey d = k) \<and> createdAt d = t) cs" for k t
      using assms(2) f f' [unfolded same] by (rule same_forest_ties)
    then show ?thesis unfolding tiedAlike_ties [OF nodes assms(2)] by blast
  qed
  have iff: "f' = f \<longleftrightarrow> tiedAlike (forestNodes f) cs cs'"
    using onlyif forth by blast
  have untied: "(\<forall>c \<in> set (forestNodes f). \<forall>d \<in> set (forestNodes f).
                parentKey c = parentKey d \<and> createdAt c = createdAt d \<longrightarrow> c = d) \<longrightarrow> f' = f"
  proof
    assume "\<forall>c \<in> set (forestNodes f). \<forall>d \<in> set (forestNodes f).
                parentKey c = parentKey d \<and> createdAt c = createdAt d \<longrightarrow> c = d"
    with dcs assms(2) sub have "tiedAlike (forestNodes f) cs cs'" by (rule untied_tiedAlike)
    then show "f' = f" by (rule onlyif)
  qed
  have rties: "\<forall>d \<in> set cs.
              filter (\<lambda>e. createdAt e = createdAt d) (map rootOf f) =
              filter (\<lambda>e. parentKey e = None \<and> createdAt e = createdAt d) cs"
    unfolding specForest_roots [OF f] rootsOf_def by (simp only: sort_filter_ties) simp
  have kept: "list_all (tiesKept cs) f" using f by (rule specForest_tiesKept)
  show ?thesis
  proof (intro exI [of _ "max n n'"] allI impI)
    fix m assume m: "max n n' \<le> m"
    have 1: "commentForest m cs = Inr f" using run m by simp
    have 2: "commentForest m cs' = Inr f'" using run' m by simp
    from 1 2 sub roots pairs iff untied rties kept
    show "\<exists>f f'. commentForest m cs = Inr f \<and> commentForest m cs' = Inr f' \<and>
           set (forestNodes f) \<subseteq> set cs \<and>
           set (map rootOf f') = set (map rootOf f) \<and> forestPairs f' = forestPairs f \<and>
           (f' = f \<longleftrightarrow> tiedAlike (forestNodes f) cs cs') \<and>
           ((\<forall>c \<in> set (forestNodes f). \<forall>d \<in> set (forestNodes f).
                parentKey c = parentKey d \<and> createdAt c = createdAt d \<longrightarrow> c = d) \<longrightarrow> f' = f) \<and>
           (\<forall>d \<in> set cs.
              filter (\<lambda>e. createdAt e = createdAt d) (map rootOf f) =
              filter (\<lambda>e. parentKey e = None \<and> createdAt e = createdAt d) cs) \<and>
           list_all (tiesKept cs) f"
      by (intro exI [of _ f] exI [of _ f'] conjI)
  qed
qed

theorem forest_permutation_witness:
  "distinct (map id_c exCousins) \<and> mset (rev exCousins) = mset exCousins \<and>
   \<not> distinct (map createdAt exCousins) \<and>
   (\<exists>n f. commentForest n exCousins = Inr f \<and> commentForest n (rev exCousins) = Inr f)"
proof -
  have ids: "distinct (map id_c exCousins)"
    by (simp add: exCousins_def exComment_def)
  have times: "\<not> distinct (map createdAt exCousins)"
    by (simp add: exCousins_def exComment_def)
  have p: "mset (rev exCousins) = mset exCousins" by simp
  have untied: "\<forall>c \<in> set exCousins. \<forall>d \<in> set exCousins.
      parentKey c = parentKey d \<and> createdAt c = createdAt d \<longrightarrow> c = d"
    by (simp add: exCousins_def exComment_def parentKey_def)
  from forest_permutation [OF ids p] obtain n where
    n: "\<forall>m \<ge> n. \<exists>f f'.
           commentForest m exCousins = Inr f \<and> commentForest m (rev exCousins) = Inr f' \<and>
           set (forestNodes f) \<subseteq> set exCousins \<and>
           set (map rootOf f') = set (map rootOf f) \<and> forestPairs f' = forestPairs f \<and>
           (f' = f \<longleftrightarrow> tiedAlike (forestNodes f) exCousins (rev exCousins)) \<and>
           ((\<forall>c \<in> set (forestNodes f). \<forall>d \<in> set (forestNodes f).
                parentKey c = parentKey d \<and> createdAt c = createdAt d \<longrightarrow> c = d) \<longrightarrow> f' = f) \<and>
           (\<forall>d \<in> set exCousins.
              filter (\<lambda>e. createdAt e = createdAt d) (map rootOf f) =
              filter (\<lambda>e. parentKey e = None \<and> createdAt e = createdAt d) exCousins) \<and>
           list_all (tiesKept exCousins) f" ..
  then obtain f f' where
    f: "commentForest n exCousins = Inr f" "commentForest n (rev exCousins) = Inr f'"
      "set (forestNodes f) \<subseteq> set exCousins"
      "(\<forall>c \<in> set (forestNodes f). \<forall>d \<in> set (forestNodes f).
          parentKey c = parentKey d \<and> createdAt c = createdAt d \<longrightarrow> c = d) \<longrightarrow> f' = f"
    by blast
  from f(3) untied have "\<forall>c \<in> set (forestNodes f). \<forall>d \<in> set (forestNodes f).
          parentKey c = parentKey d \<and> createdAt c = createdAt d \<longrightarrow> c = d"
    by blast
  with f(4) have "f' = f" by blast
  with f(1,2) have "\<exists>n f. commentForest n exCousins = Inr f \<and>
      commentForest n (rev exCousins) = Inr f" by blast
  with ids p times show ?thesis by blast
qed

text \<open>The forest of the example thread, on a call stack of two levels.\<close>

lemma exThread_forest:
  "commentForest 2 exThread =
     Inr [Node (exComment ''c5'' None ''To Do'' 4000) [],
          Node (exComment ''c1'' None ''To Do'' 5000)
            [Node (exComment ''c3'' (Some ''c1'') ''To Do'' 5010) [],
             Node (exComment ''c2'' (Some ''c1'') ''To Do'' 5020) []]]"
  by code_simp

section \<open>buildCommentTree: the objects of the caller\<close>

lemma sameBelow_refl: "sameBelow n0 h h"
  by (simp add: sameBelow_def)

lemma sameBelow_trans: "sameBelow n0 h h1 \<Longrightarrow> sameBelow n0 h1 h2 \<Longrightarrow> sameBelow n0 h h2"
  by (simp add: sameBelow_def)

lemma nodesClosedD:
  "nodesClosed n0 h \<Longrightarrow> n0 \<le> b \<Longrightarrow> b < length h \<Longrightarrow> r \<in> set (repliesOf (h ! b)) \<Longrightarrow>
     n0 \<le> r \<and> r < length h"
  unfolding nodesClosed_def by blast

lemma nodesClosed_update:
  assumes nc: "nodesClosed n0 h" and rs: "\<forall>r \<in> set rs. n0 \<le> r \<and> r < length h"
  shows "nodesClosed n0 (h[a := CommentWithReplies c rs])"
  unfolding nodesClosed_def
proof (intro allI impI ballI)
  fix b r
  assume b: "n0 \<le> b \<and> b < length (h[a := CommentWithReplies c rs])"
    and r: "r \<in> set (repliesOf (h[a := CommentWithReplies c rs] ! b))"
  from b have bl: "n0 \<le> b" "b < length h" by simp_all
  have "n0 \<le> r \<and> r < length h"
  proof (cases "b = a")
    case True
    with bl r have "r \<in> set rs" by simp
    with rs show ?thesis by blast
  next
    case False
    with r have "r \<in> set (repliesOf (h ! b))" by simp
    with nc bl show ?thesis by (blast dest: nodesClosedD)
  qed
  then show "n0 \<le> r \<and> r < length (h[a := CommentWithReplies c rs])" by simp
qed

lemma initNodes_frame:
  "initNodes as (h, m) = Inr (h', m') \<Longrightarrow> n0 \<le> length h \<Longrightarrow> nodesClosed n0 h \<Longrightarrow>
   (\<forall>k p. m k = Some p \<longrightarrow> n0 \<le> p \<and> p < length h) \<Longrightarrow>
     length h \<le> length h' \<and> (\<forall>a < length h. h' ! a = h ! a) \<and> nodesClosed n0 h' \<and>
     (\<forall>k p. m' k = Some p \<longrightarrow> n0 \<le> p \<and> p < length h')"
proof (induction as arbitrary: h m)
  case Nil
  then show ?case by simp
next
  case (Cons a as)
  from Cons.prems(1) obtain ob where ob: "lookup h a = Some ob"
    by (cases "lookup h a") simp_all
  let ?h1 = "h @ [CommentWithReplies (fieldsOf ob) []]"
  let ?m1 = "m(id_c (fieldsOf ob) \<mapsto> length h)"
  from Cons.prems(1) ob have run: "initNodes as (?h1, ?m1) = Inr (h', m')"
    by (simp add: Let_def)
  have len: "n0 \<le> length ?h1" using Cons.prems(2) by simp
  have nc: "nodesClosed n0 ?h1"
    unfolding nodesClosed_def
  proof (intro allI impI ballI)
    fix b r assume b: "n0 \<le> b \<and> b < length ?h1" and r: "r \<in> set (repliesOf (?h1 ! b))"
    have "n0 \<le> r \<and> r < length h"
    proof (cases "b < length h")
      case True
      with r have "r \<in> set (repliesOf (h ! b))" by (simp add: nth_append)
      with Cons.prems(3) b True show ?thesis by (blast dest: nodesClosedD)
    next
      case False
      with b have "b = length h" by simp
      with r show ?thesis by simp
    qed
    then show "n0 \<le> r \<and> r < length ?h1" by simp
  qed
  have mp: "\<forall>k p. ?m1 k = Some p \<longrightarrow> n0 \<le> p \<and> p < length ?h1"
  proof (intro allI impI)
    fix k p assume kp: "?m1 k = Some p"
    show "n0 \<le> p \<and> p < length ?h1"
    proof (cases "k = id_c (fieldsOf ob)")
      case True
      with kp have "p = length h" by simp
      with Cons.prems(2) show ?thesis by simp
    next
      case False
      with kp have "m k = Some p" by simp
      with Cons.prems(4) have "n0 \<le> p \<and> p < length h" by blast
      then show ?thesis by simp
    qed
  qed
  from Cons.IH [OF run len nc mp] have
    ih: "length ?h1 \<le> length h'" "\<forall>a < length ?h1. h' ! a = ?h1 ! a" "nodesClosed n0 h'"
        "\<forall>k p. m' k = Some p \<longrightarrow> n0 \<le> p \<and> p < length h'"
    by simp_all
  have "\<forall>a < length h. h' ! a = h ! a"
    using ih(2) by (simp add: nth_append)
  with ih show ?case by simp
qed

lemma push_frame:
  assumes "push h p x = Inr h'" and p: "n0 \<le> p" and x: "n0 \<le> x \<and> x < length h"
    and nc: "nodesClosed n0 h"
  shows "sameBelow n0 h h' \<and> nodesClosed n0 h'"
proof -
  from assms(1) obtain c rs where
    look: "lookup h p = Some (CommentWithReplies c rs)"
    and h': "h' = h[p := CommentWithReplies c (rs @ [x])]"
    by (auto simp: push_def split: option.splits obj.splits)
  from look have pl: "p < length h" and hp: "h ! p = CommentWithReplies c rs"
    by (auto simp: lookup_def split: if_splits)
  have "\<forall>r \<in> set rs. n0 \<le> r \<and> r < length h"
  proof
    fix r assume "r \<in> set rs"
    then have "r \<in> set (repliesOf (h ! p))" by (simp add: hp)
    with nc p pl show "n0 \<le> r \<and> r < length h" by (rule nodesClosedD)
  qed
  with x have "\<forall>r \<in> set (rs @ [x]). n0 \<le> r \<and> r < length h" by simp
  with nc have "nodesClosed n0 h'" unfolding h' by (rule nodesClosed_update)
  moreover have "sameBelow n0 h h'" using p by (simp add: sameBelow_def h')
  ultimately show ?thesis by simp
qed

lemma linkNodes_frame:
  "linkNodes as m (h, roots) = Inr (h', roots') \<Longrightarrow>
   (\<forall>k p. m k = Some p \<longrightarrow> n0 \<le> p \<and> p < length h) \<Longrightarrow> nodesClosed n0 h \<Longrightarrow>
   (\<forall>r \<in> set roots. n0 \<le> r \<and> r < length h) \<Longrightarrow>
     sameBelow n0 h h' \<and> nodesClosed n0 h' \<and> (\<forall>r \<in> set roots'. n0 \<le> r \<and> r < length h')"
proof (induction as arbitrary: h roots)
  case Nil
  then show ?case by (simp add: sameBelow_refl)
next
  case (Cons a as)
  from Cons.prems(1) obtain ob where ob: "lookup h a = Some ob"
    by (cases "lookup h a") simp_all
  from Cons.prems(1) ob obtain n where n: "m (id_c (fieldsOf ob)) = Some n"
    by (cases "m (id_c (fieldsOf ob))") (simp_all add: Let_def)
  from Cons.prems(2) n have nr: "n0 \<le> n \<and> n < length h" by blast
  show ?case
  proof (cases "parentKey (fieldsOf ob)")
    case None
    with Cons.prems(1) ob n have run: "linkNodes as m (h, roots @ [n]) = Inr (h', roots')"
      by (simp add: Let_def)
    have "\<forall>r \<in> set (roots @ [n]). n0 \<le> r \<and> r < length h"
      using Cons.prems(4) nr by simp
    from Cons.IH [OF run Cons.prems(2,3) this] show ?thesis .
  next
    case (Some pid)
    show ?thesis
    proof (cases "m pid")
      case None
      with Cons.prems(1) ob n Some have run: "linkNodes as m (h, roots) = Inr (h', roots')"
        by (simp add: Let_def)
      from Cons.IH [OF run Cons.prems(2,3,4)] show ?thesis .
    next
      case (Some p)
      from Cons.prems(2) Some have pr: "n0 \<le> p" by blast
      from Cons.prems(1) ob n \<open>parentKey (fieldsOf ob) = Some pid\<close> Some obtain h1 where
        h1: "push h p n = Inr h1" and run: "linkNodes as m (h1, roots) = Inr (h', roots')"
        by (cases "push h p n") (simp_all add: Let_def)
      from push_frame [OF h1 pr nr Cons.prems(3)] have
        sb: "sameBelow n0 h h1" and nc: "nodesClosed n0 h1" by simp_all
      from sb have len: "length h1 = length h" by (simp add: sameBelow_def)
      from Cons.IH [OF run] Cons.prems(2,4) nc len have
        "sameBelow n0 h1 h' \<and> nodesClosed n0 h' \<and>
         (\<forall>r \<in> set roots'. n0 \<le> r \<and> r < length h')"
        by simp
      with sb show ?thesis by (blast intro: sameBelow_trans)
    qed
  qed
qed

lemma sortRefs_set: "sortRefsByCreatedAt h rs = Inr rs' \<Longrightarrow> set rs' = set rs"
  by (auto simp: sortRefsByCreatedAt_def split: if_splits)

lemma sortReplies_frame:
  "(sortReplies n a h = Inr h' \<longrightarrow> n0 \<le> a \<longrightarrow> nodesClosed n0 h \<longrightarrow>
      sameBelow n0 h h' \<and> nodesClosed n0 h')"
  "(forEachSortReplies n rs h = Inr h' \<longrightarrow> (\<forall>r \<in> set rs. n0 \<le> r) \<longrightarrow> nodesClosed n0 h \<longrightarrow>
      sameBelow n0 h h' \<and> nodesClosed n0 h')"
proof (induction n a h and n rs h arbitrary: h' and h' rule: sortReplies_forEachSortReplies.induct)
  case (1 a h)
  show ?case by simp
next
  case (2 n a h)
  show ?case
  proof (intro impI)
    assume run: "sortReplies (Suc n) a h = Inr h'" and a: "n0 \<le> a" and nc: "nodesClosed n0 h"
    from run obtain c rs where look: "lookup h a = Some (CommentWithReplies c rs)"
      by (auto split: option.splits obj.splits)
    from run look obtain rs' where
      rs': "sortRefsByCreatedAt h rs = Inr rs'"
      and each: "forEachSortReplies n rs' (h[a := CommentWithReplies c rs']) = Inr h'"
      by (cases "sortRefsByCreatedAt h rs") simp_all
    from look have al: "a < length h" and ha: "h ! a = CommentWithReplies c rs"
      by (auto simp: lookup_def split: if_splits)
    have "\<forall>r \<in> set rs. n0 \<le> r \<and> r < length h"
    proof
      fix r assume "r \<in> set rs"
      then have "r \<in> set (repliesOf (h ! a))" by (simp add: ha)
      with nc a al show "n0 \<le> r \<and> r < length h" by (rule nodesClosedD)
    qed
    with sortRefs_set [OF rs'] have in_range: "\<forall>r \<in> set rs'. n0 \<le> r \<and> r < length h"
      by simp
    let ?h1 = "h[a := CommentWithReplies c rs']"
    have nc1: "nodesClosed n0 ?h1" using nc in_range by (rule nodesClosed_update)
    have sb1: "sameBelow n0 h ?h1" using a by (simp add: sameBelow_def)
    from "2.IH" [OF look refl rs', of h'] each in_range nc1 have
      "sameBelow n0 ?h1 h' \<and> nodesClosed n0 h'" by simp
    with sb1 show "sameBelow n0 h h' \<and> nodesClosed n0 h'"
      by (blast intro: sameBelow_trans)
  qed
next
  case (3 n h)
  show ?case by (simp add: sameBelow_refl)
next
  case (4 n r rs h)
  show ?case
  proof (intro impI)
    assume run: "forEachSortReplies n (r # rs) h = Inr h'"
      and rs: "\<forall>x \<in> set (r # rs). n0 \<le> x" and nc: "nodesClosed n0 h"
    from run obtain h1 where
      h1: "sortReplies n r h = Inr h1" and rest: "forEachSortReplies n rs h1 = Inr h'"
      by (cases "sortReplies n r h") simp_all
    from "4.IH"(1) [of h1] h1 rs nc have
      sb1: "sameBelow n0 h h1" and nc1: "nodesClosed n0 h1" by simp_all
    from "4.IH"(2) [OF h1, of h'] rest rs nc1 have
      "sameBelow n0 h1 h' \<and> nodesClosed n0 h'" by simp
    with sb1 show "sameBelow n0 h h' \<and> nodesClosed n0 h'"
      by (blast intro: sameBelow_trans)
  qed
qed

text \<open>
  Claim C10. \<^verbatim>\<open>buildCommentTree\<close> does not mutate its input: when the call returns,
  every object that was on the heap before the call, so every comment object of the
  input array, is unchanged. The objects of the result are allocated by the call: the
  roots, and the replies of every object the call has allocated, are such objects. The
  array itself is only read.
\<close>

theorem buildCommentTree_frame:
  assumes "buildCommentTree stack h commentRefs = Inr (h', roots)"
  shows "length h \<le> length h' \<and> (\<forall>a < length h. h' ! a = h ! a) \<and>
         (\<forall>r \<in> set roots. length h \<le> r \<and> r < length h') \<and> nodesClosed (length h) h'"
proof -
  let ?n0 = "length h"
  from assms obtain h1 m where init: "initNodes commentRefs (h, Map.empty) = Inr (h1, m)"
    by (cases "initNodes commentRefs (h, Map.empty)") (auto simp: buildCommentTree_def)
  from assms init obtain h2 rs where link: "linkNodes commentRefs m (h1, []) = Inr (h2, rs)"
    by (cases "linkNodes commentRefs m (h1, [])") (auto simp: buildCommentTree_def)
  from assms init link have sort: "sortRefsByCreatedAt h2 rs = Inr roots"
    and each: "forEachSortReplies stack roots h2 = Inr h'"
    by (auto simp: buildCommentTree_def split: sum.splits)
  have nc0: "nodesClosed ?n0 h" by (simp add: nodesClosed_def)
  from initNodes_frame [OF init _ nc0] have
    i: "?n0 \<le> length h1" "\<forall>a < ?n0. h1 ! a = h ! a" "nodesClosed ?n0 h1"
       "\<forall>k p. m k = Some p \<longrightarrow> ?n0 \<le> p \<and> p < length h1"
    by simp_all
  from linkNodes_frame [OF link i(4) i(3)] have
    l: "sameBelow ?n0 h1 h2" "nodesClosed ?n0 h2" "\<forall>r \<in> set rs. ?n0 \<le> r \<and> r < length h2"
    by simp_all
  from l(3) sortRefs_set [OF sort] have range: "\<forall>r \<in> set roots. ?n0 \<le> r \<and> r < length h2"
    by simp
  then have "\<forall>r \<in> set roots. ?n0 \<le> r" by simp
  with sortReplies_frame(2) [of stack roots h2 h' ?n0] each l(2) have
    s: "sameBelow ?n0 h2 h'" and nc: "nodesClosed ?n0 h'" by simp_all
  from s range have "\<forall>r \<in> set roots. ?n0 \<le> r \<and> r < length h'"
    by (simp add: sameBelow_def)
  with sameBelow_trans [OF l(1) s] i(1,2) nc show ?thesis
    by (simp add: sameBelow_def)
qed

theorem buildCommentTree_frame_witness:
  "\<exists>h' roots.
     buildCommentTree 2 (map Comment exThread) [0..<length exThread] = Inr (h', roots) \<and>
     length (map Comment exThread) \<le> length h' \<and>
     h' ! 0 = Comment (exComment ''c1'' None ''To Do'' 5000)"
proof -
  have "\<exists>h' roots.
      buildCommentTree 2 (map Comment exThread) [0..<length exThread] = Inr (h', roots)"
    using exThread_forest by (auto simp: commentForest_def split: sum.splits)
  then obtain h' roots where
    run: "buildCommentTree 2 (map Comment exThread) [0..<length exThread] = Inr (h', roots)"
    by blast
  from buildCommentTree_frame [OF run] have
    len: "length (map Comment exThread) \<le> length h'"
    and same: "\<forall>a < length (map Comment exThread). h' ! a = map Comment exThread ! a"
    by simp_all
  have "0 < length (map Comment exThread)" by (simp add: exThread_def)
  with same have "h' ! 0 = map Comment exThread ! 0" by blast
  then have "h' ! 0 = Comment (exComment ''c1'' None ''To Do'' 5000)"
    by (simp add: exThread_def)
  with run len show ?thesis by blast
qed

section \<open>buildCommentTree: the order, for every input\<close>

lemma settled_refl: "settled n0 h h"
  by (simp add: settled_def)

lemma settled_createdAtOf:
  "settled n0 h h' \<Longrightarrow> b < length h \<Longrightarrow> createdAtOf h' b = createdAtOf h b"
  by (simp add: settled_def createdAtOf_def)

lemma sorted_map_cong:
  assumes "\<forall>x \<in> set xs. f x = g x"
  shows "sorted (map f xs) = sorted (map g xs)"
proof -
  from assms have "map f xs = map g xs" by simp
  then show ?thesis by (simp only:)
qed

lemma sortedRefs_cong:
  assumes "h' ! a = h ! a" and "\<forall>r \<in> set (repliesOf (h ! a)). createdAtOf h' r = createdAtOf h r"
  shows "sortedRefs h' a = sortedRefs h a"
  unfolding sortedRefs_def assms(1) using assms(2) by (rule sorted_map_cong)

lemma settled_sortedRefs:
  assumes st: "settled n0 h h'" and nc: "nodesClosed n0 h"
    and b: "n0 \<le> b" "b < length h" and s: "sortedRefs h b"
  shows "h' ! b = h ! b \<and> sortedRefs h' b"
proof -
  from st b s have same: "h' ! b = h ! b" unfolding settled_def by blast
  have "\<forall>r \<in> set (repliesOf (h ! b)). createdAtOf h' r = createdAtOf h r"
  proof
    fix r assume "r \<in> set (repliesOf (h ! b))"
    with nc b have "r < length h" by (blast dest: nodesClosedD)
    with st show "createdAtOf h' r = createdAtOf h r" by (rule settled_createdAtOf)
  qed
  with same have "sortedRefs h' b = sortedRefs h b" by (rule sortedRefs_cong)
  with same s show ?thesis by simp
qed

lemma settled_trans:
  assumes s1: "settled n0 h h1" and s2: "settled n0 h1 h2" and nc: "nodesClosed n0 h"
  shows "settled n0 h h2"
  unfolding settled_def
proof (intro conjI allI impI)
  from s1 s2 show "length h2 = length h" by (simp add: settled_def)
next
  fix b assume "b < length h"
  with s1 s2 show "fieldsOf (h2 ! b) = fieldsOf (h ! b)" by (simp add: settled_def)
next
  fix b assume b: "n0 \<le> b \<and> b < length h \<and> sortedRefs h b"
  with settled_sortedRefs [OF s1 nc] have 1: "h1 ! b = h ! b" "sortedRefs h1 b" by simp_all
  from s1 b have "b < length h1" by (simp add: settled_def)
  with s2 b 1(2) have "h2 ! b = h1 ! b" unfolding settled_def by blast
  with 1(1) show "h2 ! b = h ! b" by simp
qed

lemma settled_deepSorted:
  assumes st: "settled n0 h h'" and nc: "nodesClosed n0 h"
  shows "n0 \<le> a \<Longrightarrow> a < length h \<Longrightarrow> deepSorted n h a \<Longrightarrow> deepSorted n h' a"
proof (induction n arbitrary: a)
  case 0
  show ?case by simp
next
  case (Suc n)
  from Suc.prems(3) have s: "sortedRefs h a"
    and kids: "\<forall>r \<in> set (repliesOf (h ! a)). deepSorted n h r"
    by (simp_all add: list_all_iff)
  from settled_sortedRefs [OF st nc Suc.prems(1,2) s] have
    same: "h' ! a = h ! a" and s': "sortedRefs h' a" by simp_all
  have "\<forall>r \<in> set (repliesOf (h ! a)). deepSorted n h' r"
  proof
    fix r assume r: "r \<in> set (repliesOf (h ! a))"
    with nc Suc.prems(1,2) have "n0 \<le> r \<and> r < length h" by (blast dest: nodesClosedD)
    with kids r show "deepSorted n h' r" by (simp add: Suc.IH)
  qed
  with s' same show ?case by (simp add: list_all_iff)
qed

lemma sort_step:
  assumes look: "lookup h a = Some (CommentWithReplies c rs)"
    and sort: "sortRefsByCreatedAt h rs = Inr rs'"
    and a: "n0 \<le> a" and nc: "nodesClosed n0 h"
  shows "settled n0 h (h[a := CommentWithReplies c rs']) \<and>
         nodesClosed n0 (h[a := CommentWithReplies c rs']) \<and>
         sortedRefs (h[a := CommentWithReplies c rs']) a \<and>
         (\<forall>r \<in> set rs'. n0 \<le> r \<and> r < length h)"
proof -
  let ?h1 = "h[a := CommentWithReplies c rs']"
  from look have al: "a < length h" and ha: "h ! a = CommentWithReplies c rs"
    by (auto simp: lookup_def split: if_splits)
  from sort have rs': "rs' = sort_key (createdAtOf h) rs"
    and valid: "\<forall>r \<in> set rs. r < length h"
    by (auto simp: sortRefsByCreatedAt_def list_all_iff split: if_splits)
  have range: "\<forall>r \<in> set rs'. n0 \<le> r \<and> r < length h"
  proof
    fix r assume "r \<in> set rs'"
    then have "r \<in> set (repliesOf (h ! a))" by (simp add: rs' ha)
    with nc a al show "n0 \<le> r \<and> r < length h" by (rule nodesClosedD)
  qed
  have nc1: "nodesClosed n0 ?h1" using nc range by (rule nodesClosed_update)
  have st: "settled n0 h ?h1"
    unfolding settled_def
  proof (intro conjI allI impI)
    show "length ?h1 = length h" by simp
  next
    fix b assume "b < length h"
    then show "fieldsOf (?h1 ! b) = fieldsOf (h ! b)"
      using ha by (cases "b = a") simp_all
  next
    fix b assume b: "n0 \<le> b \<and> b < length h \<and> sortedRefs h b"
    show "?h1 ! b = h ! b"
    proof (cases "b = a")
      case True
      with b ha have "sorted (map (createdAtOf h) rs)" by (simp add: sortedRefs_def)
      then have "rs' = rs" unfolding rs' by (rule sort_key_id_if_sorted)
      with True al ha show ?thesis by simp
    next
      case False
      then show ?thesis by simp
    qed
  qed
  have keys: "\<forall>r \<in> set rs'. createdAtOf ?h1 r = createdAtOf h r"
    using range st by (simp add: settled_createdAtOf)
  have "sorted (map (createdAtOf ?h1) rs') = sorted (map (createdAtOf h) rs')"
    using keys by (rule sorted_map_cong)
  moreover have "sorted (map (createdAtOf h) rs')" by (simp add: rs')
  moreover have "repliesOf (?h1 ! a) = rs'" using al by simp
  ultimately have "sortedRefs ?h1 a" by (simp only: sortedRefs_def)
  with st nc1 range show ?thesis by simp
qed

lemma sortReplies_deepSorted:
  "(sortReplies n a h = Inr h' \<longrightarrow> n0 \<le> a \<longrightarrow> nodesClosed n0 h \<longrightarrow>
      settled n0 h h' \<and> nodesClosed n0 h' \<and> deepSorted n h' a)"
  "(forEachSortReplies n rs h = Inr h' \<longrightarrow> (\<forall>r \<in> set rs. n0 \<le> r \<and> r < length h) \<longrightarrow>
      nodesClosed n0 h \<longrightarrow>
      settled n0 h h' \<and> nodesClosed n0 h' \<and> (\<forall>r \<in> set rs. deepSorted n h' r))"
proof (induction n a h and n rs h arbitrary: h' and h' rule: sortReplies_forEachSortReplies.induct)
  case (1 a h)
  show ?case by simp
next
  case (2 n a h)
  show ?case
  proof (intro impI)
    assume run: "sortReplies (Suc n) a h = Inr h'" and a: "n0 \<le> a" and nc: "nodesClosed n0 h"
    from run obtain c rs where look: "lookup h a = Some (CommentWithReplies c rs)"
      by (auto split: option.splits obj.splits)
    from run look obtain rs' where
      rs': "sortRefsByCreatedAt h rs = Inr rs'"
      and each: "forEachSortReplies n rs' (h[a := CommentWithReplies c rs']) = Inr h'"
      by (cases "sortRefsByCreatedAt h rs") simp_all
    let ?h1 = "h[a := CommentWithReplies c rs']"
    from look have al: "a < length h" by (auto simp: lookup_def split: if_splits)
    from sort_step [OF look rs' a nc] have
      st1: "settled n0 h ?h1" and nc1: "nodesClosed n0 ?h1" and s1: "sortedRefs ?h1 a"
      and range: "\<forall>r \<in> set rs'. n0 \<le> r \<and> r < length h" by simp_all
    from "2.IH" [OF look refl rs', of h'] each range nc1 have
      st2: "settled n0 ?h1 h'" and nc2: "nodesClosed n0 h'"
      and deep: "\<forall>r \<in> set rs'. deepSorted n h' r" by simp_all
    have st: "settled n0 h h'" using st1 st2 nc by (rule settled_trans)
    from settled_sortedRefs [OF st2 nc1 a _ s1] al have
      "h' ! a = ?h1 ! a" "sortedRefs h' a" by simp_all
    with al deep have "deepSorted (Suc n) h' a" by (simp add: list_all_iff)
    with st nc2 show "settled n0 h h' \<and> nodesClosed n0 h' \<and> deepSorted (Suc n) h' a"
      by simp
  qed
next
  case (3 n h)
  show ?case by (simp add: settled_refl)
next
  case (4 n r rs h)
  show ?case
  proof (intro impI)
    assume run: "forEachSortReplies n (r # rs) h = Inr h'"
      and rs: "\<forall>x \<in> set (r # rs). n0 \<le> x \<and> x < length h" and nc: "nodesClosed n0 h"
    from run obtain h1 where
      h1: "sortReplies n r h = Inr h1" and rest: "forEachSortReplies n rs h1 = Inr h'"
      by (cases "sortReplies n r h") simp_all
    from "4.IH"(1) [of h1] h1 rs nc have
      st1: "settled n0 h h1" and nc1: "nodesClosed n0 h1" and d1: "deepSorted n h1 r"
      by simp_all
    from st1 have len: "length h1 = length h" by (simp add: settled_def)
    from "4.IH"(2) [OF h1, of h'] rest rs nc1 len have
      st2: "settled n0 h1 h'" and nc2: "nodesClosed n0 h'"
      and d2: "\<forall>x \<in> set rs. deepSorted n h' x" by simp_all
    have st: "settled n0 h h'" using st1 st2 nc by (rule settled_trans)
    from rs len have "n0 \<le> r" "r < length h1" by simp_all
    with settled_deepSorted [OF st2 nc1] d1 have "deepSorted n h' r" by blast
    with st nc2 d2 show "settled n0 h h' \<and> nodesClosed n0 h' \<and>
        (\<forall>x \<in> set (r # rs). deepSorted n h' x)" by simp
  qed
qed

lemma readTree_sorted:
  "readTree n h a = Some t \<Longrightarrow> deepSorted n h a \<Longrightarrow>
     repliesSorted t \<and> rootOf t = fieldsOf (h ! a)"
proof (induction n arbitrary: a t)
  case 0
  then show ?case by simp
next
  case (Suc n)
  from Suc.prems(1) obtain c rs where look: "lookup h a = Some (CommentWithReplies c rs)"
    by (auto split: option.splits obj.splits)
  with Suc.prems(1) obtain ts where
    ts: "map (readTree n h) rs = map Some ts" and t: "t = Node c ts"
    by (auto simp: those_eq_Some_iff)
  from look have ha: "h ! a = CommentWithReplies c rs"
    by (auto simp: lookup_def split: if_splits)
  from Suc.prems(2) ha have s: "sorted (map (createdAtOf h) rs)"
    and deep: "\<forall>r \<in> set rs. deepSorted n h r"
    by (simp_all add: sortedRefs_def list_all_iff)
  have len: "length ts = length rs" using ts by (rule map_Some_length)
  have each: "repliesSorted (ts ! i) \<and> rootOf (ts ! i) = fieldsOf (h ! (rs ! i))"
    if "i < length rs" for i
  proof -
    from ts that have "readTree n h (rs ! i) = Some (ts ! i)" by (rule map_Some_nth)
    moreover from deep that have "deepSorted n h (rs ! i)" by simp
    ultimately show ?thesis by (rule Suc.IH)
  qed
  have "map (createdAt \<circ> rootOf) ts = map (createdAtOf h) rs"
    by (rule nth_equalityI) (simp_all add: len each createdAtOf_def)
  with s have "sorted (map (createdAt \<circ> rootOf) ts)" by simp
  moreover have "list_all repliesSorted ts"
    unfolding list_all_iff
  proof
    fix t' assume "t' \<in> set ts"
    then obtain i where "i < length ts" "t' = ts ! i" by (auto simp: in_set_conv_nth)
    with each [of i] len show "repliesSorted t'" by simp
  qed
  ultimately show ?case by (simp add: t ha)
qed

lemma buildCommentTree_sorted:
  assumes run: "buildCommentTree n h commentRefs = Inr (h', roots)"
    and read: "readForest n h' roots = Some f"
  shows "sorted (map (createdAt \<circ> rootOf) f) \<and> list_all repliesSorted f"
proof -
  let ?n0 = "length h"
  from run obtain h1 m where init: "initNodes commentRefs (h, Map.empty) = Inr (h1, m)"
    by (cases "initNodes commentRefs (h, Map.empty)") (auto simp: buildCommentTree_def)
  from run init obtain h2 rs where link: "linkNodes commentRefs m (h1, []) = Inr (h2, rs)"
    by (cases "linkNodes commentRefs m (h1, [])") (auto simp: buildCommentTree_def)
  from run init link have sort: "sortRefsByCreatedAt h2 rs = Inr roots"
    and each: "forEachSortReplies n roots h2 = Inr h'"
    by (auto simp: buildCommentTree_def split: sum.splits)
  have nc0: "nodesClosed ?n0 h" by (simp add: nodesClosed_def)
  from initNodes_frame [OF init _ nc0] have
    i: "nodesClosed ?n0 h1" "\<forall>k p. m k = Some p \<longrightarrow> ?n0 \<le> p \<and> p < length h1"
    by simp_all
  from linkNodes_frame [OF link i(2) i(1)] have
    l: "nodesClosed ?n0 h2" "\<forall>r \<in> set rs. ?n0 \<le> r \<and> r < length h2"
    by simp_all
  from sort have roots: "roots = sort_key (createdAtOf h2) rs"
    by (auto simp: sortRefsByCreatedAt_def split: if_splits)
  from l(2) roots have range: "\<forall>r \<in> set roots. ?n0 \<le> r \<and> r < length h2" by simp
  from sortReplies_deepSorted(2) [of n roots h2 h' ?n0] each range l(1) have
    st: "settled ?n0 h2 h'" and deep: "\<forall>r \<in> set roots. deepSorted n h' r" by simp_all
  from read have f: "map (readTree n h') roots = map Some f"
    by (simp add: readForest_def those_eq_Some_iff)
  have len: "length f = length roots" using f by (rule map_Some_length)
  have each_tree: "repliesSorted (f ! i) \<and> rootOf (f ! i) = fieldsOf (h' ! (roots ! i))"
    if "i < length roots" for i
  proof -
    from f that have "readTree n h' (roots ! i) = Some (f ! i)" by (rule map_Some_nth)
    moreover from deep that have "deepSorted n h' (roots ! i)" by simp
    ultimately show ?thesis by (rule readTree_sorted)
  qed
  have keys: "createdAt (fieldsOf (h' ! (roots ! i))) = createdAtOf h2 (roots ! i)"
    if "i < length roots" for i
  proof -
    from that range have "roots ! i < length h2" by simp
    with st show ?thesis by (simp add: settled_def createdAtOf_def)
  qed
  have "map (createdAt \<circ> rootOf) f = map (createdAtOf h2) roots"
    by (rule nth_equalityI) (simp_all add: len each_tree keys)
  then have "sorted (map (createdAt \<circ> rootOf) f)" by (simp add: roots)
  moreover have "list_all repliesSorted f"
    unfolding list_all_iff
  proof
    fix t assume "t \<in> set f"
    then obtain i where "i < length f" "t = f ! i" by (auto simp: in_set_conv_nth)
    with each_tree [of i] len show "repliesSorted t" by simp
  qed
  ultimately show ?thesis by simp
qed

lemma commentForest_sorted:
  assumes "commentForest n cs = Inr f"
  shows "sorted (map (createdAt \<circ> rootOf) f) \<and> list_all repliesSorted f"
proof -
  from assms obtain h' roots where
    "buildCommentTree n (map Comment cs) [0..<length cs] = Inr (h', roots)"
    "readForest n h' roots = Some f"
    by (auto simp: commentForest_def split: sum.splits option.splits)
  then show ?thesis by (rule buildCommentTree_sorted)
qed

lemma settled_readTree:
  assumes st: "settled n0 h h'" and nc: "nodesClosed n0 h"
  shows "n0 \<le> a \<Longrightarrow> a < length h \<Longrightarrow> deepSorted n h a \<Longrightarrow> readTree n h' a = readTree n h a"
proof (induction n arbitrary: a)
  case 0
  show ?case by simp
next
  case (Suc n)
  from Suc.prems(3) have s: "sortedRefs h a"
    and deep: "\<forall>r \<in> set (repliesOf (h ! a)). deepSorted n h r"
    by (simp_all add: list_all_iff)
  from settled_sortedRefs [OF st nc Suc.prems(1,2) s] have same: "h' ! a = h ! a" by simp
  from st have len: "length h' = length h" by (simp add: settled_def)
  have kids: "map (readTree n h') (repliesOf (h ! a)) = map (readTree n h) (repliesOf (h ! a))"
  proof (rule map_cong [OF refl])
    fix r assume r: "r \<in> set (repliesOf (h ! a))"
    with nc Suc.prems(1,2) have "n0 \<le> r \<and> r < length h" by (blast dest: nodesClosedD)
    with deep r show "readTree n h' r = readTree n h r" by (simp add: Suc.IH)
  qed
  show ?case
  proof (cases "h ! a")
    case (Comment c)
    with same len Suc.prems(2) show ?thesis by simp
  next
    case (CommentWithReplies c rs)
    with kids have "map (readTree n h') rs = map (readTree n h) rs" by simp
    with CommentWithReplies same len Suc.prems(2) show ?thesis by (simp only: readTree.simps lookup_Some option.case obj.case)
  qed
qed

lemma all_Some_map:
  assumes "\<forall>x \<in> set xs. f x \<noteq> None"
  shows "\<exists>ys. map f xs = map Some ys"
proof -
  have "map f xs = map Some (map (\<lambda>x. the (f x)) xs)"
    using assms by (induction xs) auto
  then show ?thesis by blast
qed

lemma sortReplies_readable:
  "(sortReplies n a h = Inr h' \<longrightarrow> n0 \<le> a \<longrightarrow> nodesClosed n0 h \<longrightarrow> readTree n h' a \<noteq> None)"
  "(forEachSortReplies n rs h = Inr h' \<longrightarrow> (\<forall>r \<in> set rs. n0 \<le> r \<and> r < length h) \<longrightarrow>
      nodesClosed n0 h \<longrightarrow> (\<forall>r \<in> set rs. readTree n h' r \<noteq> None))"
proof (induction n a h and n rs h arbitrary: h' and h' rule: sortReplies_forEachSortReplies.induct)
  case (1 a h)
  show ?case by simp
next
  case (2 n a h)
  show ?case
  proof (intro impI)
    assume run: "sortReplies (Suc n) a h = Inr h'" and a: "n0 \<le> a" and nc: "nodesClosed n0 h"
    from run obtain c rs where look: "lookup h a = Some (CommentWithReplies c rs)"
      by (auto split: option.splits obj.splits)
    from run look obtain rs' where
      rs': "sortRefsByCreatedAt h rs = Inr rs'"
      and each: "forEachSortReplies n rs' (h[a := CommentWithReplies c rs']) = Inr h'"
      by (cases "sortRefsByCreatedAt h rs") simp_all
    let ?h1 = "h[a := CommentWithReplies c rs']"
    from look have al: "a < length h" by (auto simp: lookup_def split: if_splits)
    from sort_step [OF look rs' a nc] have
      nc1: "nodesClosed n0 ?h1" and s1: "sortedRefs ?h1 a"
      and range: "\<forall>r \<in> set rs'. n0 \<le> r \<and> r < length h" by simp_all
    from range have range1: "\<forall>r \<in> set rs'. n0 \<le> r \<and> r < length ?h1" by simp
    from sortReplies_deepSorted(2) [of n rs' ?h1 h' n0] each range1 nc1 have
      st2: "settled n0 ?h1 h'" by simp
    from "2.IH" [OF look refl rs', of h'] each range nc1 have
      "\<forall>r \<in> set rs'. readTree n h' r \<noteq> None" by simp
    then obtain ts where ts: "map (readTree n h') rs' = map Some ts"
      using all_Some_map by blast
    from settled_sortedRefs [OF st2 nc1 a _ s1] al have
      same: "h' ! a = CommentWithReplies c rs'" by simp
    from st2 al have "a < length h'" by (simp add: settled_def)
    with same ts have "readTree (Suc n) h' a = Some (Node c ts)"
      by (simp add: those_eq_Some_iff)
    then show "readTree (Suc n) h' a \<noteq> None" by simp
  qed
next
  case (3 n h)
  show ?case by simp
next
  case (4 n r rs h)
  show ?case
  proof (intro impI)
    assume run: "forEachSortReplies n (r # rs) h = Inr h'"
      and rs: "\<forall>x \<in> set (r # rs). n0 \<le> x \<and> x < length h" and nc: "nodesClosed n0 h"
    from run obtain h1 where
      h1: "sortReplies n r h = Inr h1" and rest: "forEachSortReplies n rs h1 = Inr h'"
      by (cases "sortReplies n r h") simp_all
    from rs have r: "n0 \<le> r" "r < length h" by simp_all
    from sortReplies_deepSorted(1) [of n r h h1 n0] h1 r nc have
      st1: "settled n0 h h1" and nc1: "nodesClosed n0 h1" and d1: "deepSorted n h1 r"
      by simp_all
    from st1 have len: "length h1 = length h" by (simp add: settled_def)
    with rs have rs1: "\<forall>x \<in> set rs. n0 \<le> x \<and> x < length h1" by simp
    from sortReplies_deepSorted(2) [of n rs h1 h' n0] rest rs1 nc1 have
      st2: "settled n0 h1 h'" by simp
    from "4.IH"(1) [of h1] h1 r nc have "readTree n h1 r \<noteq> None" by simp
    moreover from settled_readTree [OF st2 nc1 r(1) _ d1] r(2) len have
      "readTree n h' r = readTree n h1 r" by simp
    ultimately have "readTree n h' r \<noteq> None" by simp
    moreover from "4.IH"(2) [OF h1, of h'] rest rs1 nc1 have
      "\<forall>x \<in> set rs. readTree n h' x \<noteq> None" by simp
    ultimately show "\<forall>x \<in> set (r # rs). readTree n h' x \<noteq> None" by simp
  qed
qed

text \<open>When \<^verbatim>\<open>buildCommentTree\<close> returns, the structure it returns is a finite forest:
  it can be read to the depth of the call stack the call had.\<close>

lemma buildCommentTree_readable:
  assumes run: "buildCommentTree n h commentRefs = Inr (h', roots)"
  shows "\<exists>f. readForest n h' roots = Some f"
proof -
  let ?n0 = "length h"
  from run obtain h1 m where init: "initNodes commentRefs (h, Map.empty) = Inr (h1, m)"
    by (cases "initNodes commentRefs (h, Map.empty)") (auto simp: buildCommentTree_def)
  from run init obtain h2 rs where link: "linkNodes commentRefs m (h1, []) = Inr (h2, rs)"
    by (cases "linkNodes commentRefs m (h1, [])") (auto simp: buildCommentTree_def)
  from run init link have sort: "sortRefsByCreatedAt h2 rs = Inr roots"
    and each: "forEachSortReplies n roots h2 = Inr h'"
    by (auto simp: buildCommentTree_def split: sum.splits)
  have nc0: "nodesClosed ?n0 h" by (simp add: nodesClosed_def)
  from initNodes_frame [OF init _ nc0] have
    i: "nodesClosed ?n0 h1" "\<forall>k p. m k = Some p \<longrightarrow> ?n0 \<le> p \<and> p < length h1"
    by simp_all
  from linkNodes_frame [OF link i(2) i(1)] have
    l: "nodesClosed ?n0 h2" "\<forall>r \<in> set rs. ?n0 \<le> r \<and> r < length h2"
    by simp_all
  from l(2) sortRefs_set [OF sort] have range: "\<forall>r \<in> set roots. ?n0 \<le> r \<and> r < length h2"
    by simp
  from sortReplies_readable(2) [of n roots h2 h' ?n0] each range l(1) have
    "\<forall>r \<in> set roots. readTree n h' r \<noteq> None" by simp
  then obtain f where "map (readTree n h') roots = map Some f"
    using all_Some_map by blast
  then show ?thesis by (simp add: readForest_def those_eq_Some_iff)
qed

lemma commentForest_readable:
  assumes "buildCommentTree n (map Comment cs) [0..<length cs] = Inr (h', roots)"
  shows "\<exists>f. commentForest n cs = Inr f"
  using buildCommentTree_readable [OF assms] assms by (auto simp: commentForest_def)

text \<open>
  Claim C9. For every input, in the forest that \<^verbatim>\<open>buildCommentTree\<close> returns the roots
  are in ascending \<^verbatim>\<open>createdAt\<close> order, and so are the replies of every node, at every
  depth: whenever the call returns, what it returns is a finite forest, and that forest is
  sorted so. For an input with pairwise distinct ids the call does return, on every call
  stack that is deep enough.
\<close>

theorem forest_sorted:
  "(buildCommentTree n (map Comment cs) [0..<length cs] = Inr (h, roots) \<longrightarrow>
      (\<exists>f. commentForest n cs = Inr f)) \<and>
   (commentForest n cs = Inr f \<longrightarrow>
      sorted (map (createdAt \<circ> rootOf) f) \<and> list_all repliesSorted f) \<and>
   (distinct (map id_c cs) \<longrightarrow> (\<exists>n. \<forall>m \<ge> n. \<exists>f. commentForest m cs = Inr f))"
proof (intro conjI impI)
  assume "buildCommentTree n (map Comment cs) [0..<length cs] = Inr (h, roots)"
  then show "\<exists>f. commentForest n cs = Inr f" by (rule commentForest_readable)
next
  assume "commentForest n cs = Inr f"
  then have "sorted (map (createdAt \<circ> rootOf) f) \<and> list_all repliesSorted f"
    by (rule commentForest_sorted)
  then show "sorted (map (createdAt \<circ> rootOf) f)" "list_all repliesSorted f" by simp_all
next
  assume "distinct (map id_c cs)"
  from commentForest_returns [OF this] show "\<exists>n. \<forall>m \<ge> n. \<exists>f. commentForest m cs = Inr f"
    by blast
qed

theorem forest_sorted_witness:
  "commentForest 2 exThread =
     Inr [Node (exComment ''c5'' None ''To Do'' 4000) [],
          Node (exComment ''c1'' None ''To Do'' 5000)
            [Node (exComment ''c3'' (Some ''c1'') ''To Do'' 5010) [],
             Node (exComment ''c2'' (Some ''c1'') ''To Do'' 5020) []]] \<and>
   sorted (map (createdAt \<circ> rootOf)
     [Node (exComment ''c5'' None ''To Do'' 4000) [],
      Node (exComment ''c1'' None ''To Do'' 5000)
        [Node (exComment ''c3'' (Some ''c1'') ''To Do'' 5010) [],
         Node (exComment ''c2'' (Some ''c1'') ''To Do'' 5020) []]]) \<and>
   list_all repliesSorted
     [Node (exComment ''c5'' None ''To Do'' 4000) [],
      Node (exComment ''c1'' None ''To Do'' 5000)
        [Node (exComment ''c3'' (Some ''c1'') ''To Do'' 5010) [],
         Node (exComment ''c2'' (Some ''c1'') ''To Do'' 5020) []]] \<and>
   distinct (map id_c exThread) \<and>
   (\<exists>h roots. buildCommentTree 2 (map Comment exThread) [0..<length exThread] = Inr (h, roots)) \<and>
   (\<exists>n. \<forall>m \<ge> n. \<exists>f. commentForest m exThread = Inr f)"
proof -
  have run: "\<exists>h roots.
      buildCommentTree 2 (map Comment exThread) [0..<length exThread] = Inr (h, roots)"
    using exThread_forest by (auto simp: commentForest_def split: sum.splits)
  note inst = forest_sorted [of 2 exThread _ _
     "[Node (exComment ''c5'' None ''To Do'' 4000) [],
       Node (exComment ''c1'' None ''To Do'' 5000)
         [Node (exComment ''c3'' (Some ''c1'') ''To Do'' 5010) [],
          Node (exComment ''c2'' (Some ''c1'') ''To Do'' 5020) []]]"]
  from inst exThread_forest
  have "sorted (map (createdAt \<circ> rootOf)
     [Node (exComment ''c5'' None ''To Do'' 4000) [],
      Node (exComment ''c1'' None ''To Do'' 5000)
        [Node (exComment ''c3'' (Some ''c1'') ''To Do'' 5010) [],
         Node (exComment ''c2'' (Some ''c1'') ''To Do'' 5020) []]]) \<and>
   list_all repliesSorted
     [Node (exComment ''c5'' None ''To Do'' 4000) [],
      Node (exComment ''c1'' None ''To Do'' 5000)
        [Node (exComment ''c3'' (Some ''c1'') ''To Do'' 5010) [],
         Node (exComment ''c2'' (Some ''c1'') ''To Do'' 5020) []]]"
    by blast
  moreover from inst exThread_ids
  have "\<exists>n. \<forall>m \<ge> n. \<exists>f. commentForest m exThread = Inr f" by blast
  ultimately show ?thesis using exThread_forest exThread_ids run by blast
qed

end
